theory Spec2Isabelle
  imports Complex_Main "HOL-Library.Multiset"
begin

section \<open>Data model (types.ts)\<close>

text \<open>
  The types of \<^verbatim>\<open>types.ts\<close>. A \<^verbatim>\<open>Position\<close> holds array indices, so its
  coordinates are natural numbers; the direction arithmetic of the move generator is
  done on integers, where the source can reach negative values before it tests them.
  The field names \<^verbatim>\<open>from\<close> and \<^verbatim>\<open>to\<close> of a move are written \<open>from_pos\<close> and
  \<open>to_pos\<close>.
\<close>

datatype Player = Red | Black

record Piece =
  player :: Player
  isKing :: bool

record Position =
  row :: nat
  col :: nat

record Move =
  from_pos :: Position
  to_pos :: Position
  isJump :: bool
  jumpedPiece :: "Position option"

text \<open>
  \<^verbatim>\<open>BoardState = (Piece | null)[][]\<close>: an array of rows. A cell is \<open>None\<close> where the
  source reads a falsy value (\<^verbatim>\<open>null\<close>, or \<^verbatim>\<open>undefined\<close> past the end of a row);
  every test the source makes on a cell is a truthiness test.
\<close>

type_synonym BoardState = "Piece option list list"

datatype Difficulty = Easy | Medium | Hard

section \<open>Exceptions and loops\<close>

datatype error = TypeError

text \<open>
  A computation that may throw returns \<open>error + 'a\<close>; \<open>bindE\<close> sequences two of them
  and stops at the first exception.
\<close>

definition bindE :: "error + 'a \<Rightarrow> ('a \<Rightarrow> error + 'b) \<Rightarrow> error + 'b" where
  "bindE m f = (case m of Inl e \<Rightarrow> Inl e | Inr x \<Rightarrow> f x)"

text \<open>
  \<open>collectE f xs\<close> is a loop over \<open>xs\<close> whose body pushes the moves \<open>f x\<close> onto one
  result array (\<^verbatim>\<open>forEach\<close> with \<^verbatim>\<open>moves.push\<close>, and the nested \<^verbatim>\<open>for\<close> loops with
  \<^verbatim>\<open>possibleMoves.push(...moves)\<close>).
\<close>

fun collectE :: "('a \<Rightarrow> error + 'b list) \<Rightarrow> 'a list \<Rightarrow> error + 'b list" where
  "collectE f [] = Inr []"
| "collectE f (x # xs) =
     bindE (f x) (\<lambda>ys. bindE (collectE f xs) (\<lambda>zs. Inr (ys @ zs)))"

text \<open>\<open>anyE f xs\<close> is a loop that returns \<^verbatim>\<open>true\<close> at the first \<open>x\<close> whose test succeeds.\<close>

fun anyE :: "('a \<Rightarrow> error + bool) \<Rightarrow> 'a list \<Rightarrow> error + bool" where
  "anyE f [] = Inr False"
| "anyE f (x # xs) = bindE (f x) (\<lambda>b. if b then Inr True else anyE f xs)"

fun forOfE :: "('a \<Rightarrow> 's \<Rightarrow> error + ('s \<times> bool)) \<Rightarrow> 'a list \<Rightarrow> 's \<Rightarrow> error + 's" where
  "forOfE body [] s = Inr s"
| "forOfE body (x # xs) s =
     bindE (body x s) (\<lambda>r. if snd r then Inr (fst r) else forOfE body xs (fst r))"

section \<open>Board access\<close>

definition BOARD_SIZE :: nat where
  "BOARD_SIZE = 8"

text \<open>
  \<^verbatim>\<open>board[r][c]\<close>: a row index outside the array gives \<^verbatim>\<open>undefined\<close>, and indexing
  that throws a TypeError; a column index outside the row reads \<^verbatim>\<open>undefined\<close>.
\<close>

definition getCell :: "'a option list list \<Rightarrow> int \<Rightarrow> int \<Rightarrow> error + 'a option" where
  "getCell board r c =
     (if 0 \<le> r \<and> r < int (length board)
      then Inr (let rw = board ! nat r
                in if 0 \<le> c \<and> c < int (length rw) then rw ! nat c else None)
      else Inl TypeError)"

definition getAt :: "'a option list list \<Rightarrow> Position \<Rightarrow> error + 'a option" where
  "getAt board pos = getCell board (int (row pos)) (int (col pos))"

text \<open>
  \<^verbatim>\<open>rw[c] = v\<close>: a store past the end of a JavaScript array extends it, the cells in
  between reading \<^verbatim>\<open>undefined\<close>.
\<close>

definition jsStore :: "'a option list \<Rightarrow> nat \<Rightarrow> 'a option \<Rightarrow> 'a option list" where
  "jsStore rw c v =
     (if c < length rw then rw[c := v]
      else rw @ replicate (c - length rw) None @ [v])"

text \<open>\<^verbatim>\<open>board[r][c] = v\<close>: throws a TypeError when the row does not exist.\<close>

definition setAt ::
  "'a option list list \<Rightarrow> Position \<Rightarrow> 'a option \<Rightarrow> error + 'a option list list" where
  "setAt board pos v =
     (if row pos < length board
      then Inr (board[row pos := jsStore (board ! row pos) (col pos) v])
      else Inl TypeError)"

definition isValidPos :: "int \<Rightarrow> int \<Rightarrow> bool" where
  "isValidPos r c \<longleftrightarrow> r \<ge> 0 \<and> r < int BOARD_SIZE \<and> c \<ge> 0 \<and> c < int BOARD_SIZE"

section \<open>Move generation (logic.ts)\<close>

definition directionsOf :: "Piece \<Rightarrow> (int \<times> int) list" where
  "directionsOf piece =
     (if isKing piece then [(-1, -1), (-1, 1), (1, -1), (1, 1)]
      else if player piece = Red then [(-1, -1), (-1, 1)]
      else [(1, -1), (1, 1)])"

text \<open>The body of the first \<^verbatim>\<open>forEach\<close> of \<^verbatim>\<open>getValidMoves\<close>: the jump in one direction.\<close>

definition jumpStep :: "BoardState \<Rightarrow> Position \<Rightarrow> Piece \<Rightarrow> int \<times> int \<Rightarrow> error + Move list" where
  "jumpStep board pos piece d =
     (let dRow = fst d; dCol = snd d;
          jumpRow = int (row pos) + dRow * 2;
          jumpCol = int (col pos) + dCol * 2;
          midRow = int (row pos) + dRow;
          midCol = int (col pos) + dCol
      in if isValidPos jumpRow jumpCol
         then bindE (getCell board jumpRow jumpCol) (\<lambda>target.
              bindE (getCell board midRow midCol) (\<lambda>mid.
                if target = None \<and> (case mid of None \<Rightarrow> False
                                     | Some mp \<Rightarrow> player mp \<noteq> player piece)
                then Inr [\<lparr>from_pos = pos,
                           to_pos = \<lparr>row = nat jumpRow, col = nat jumpCol\<rparr>,
                           isJump = True,
                           jumpedPiece = Some \<lparr>row = nat midRow, col = nat midCol\<rparr>\<rparr>]
                else Inr []))
         else Inr [])"

text \<open>The body of the second \<^verbatim>\<open>forEach\<close>: the simple move in one direction.\<close>

definition slideStep :: "BoardState \<Rightarrow> Position \<Rightarrow> int \<times> int \<Rightarrow> error + Move list" where
  "slideStep board pos d =
     (let dRow = fst d; dCol = snd d;
          newRow = int (row pos) + dRow;
          newCol = int (col pos) + dCol
      in if isValidPos newRow newCol
         then bindE (getCell board newRow newCol) (\<lambda>cell.
                if cell = None
                then Inr [\<lparr>from_pos = pos,
                           to_pos = \<lparr>row = nat newRow, col = nat newCol\<rparr>,
                           isJump = False,
                           jumpedPiece = None\<rparr>]
                else Inr [])
         else Inr [])"

definition getValidMoves :: "BoardState \<Rightarrow> Position \<Rightarrow> bool \<Rightarrow> error + Move list" where
  "getValidMoves board pos mustJump =
     bindE (getAt board pos) (\<lambda>cell.
       case cell of
         None \<Rightarrow> Inr []
       | Some piece \<Rightarrow>
           (let directions = directionsOf piece
            in bindE (collectE (jumpStep board pos piece) directions) (\<lambda>moves.
                 if moves \<noteq> [] \<and> mustJump then Inr moves
                 else if \<not> mustJump \<or> moves = []
                 then bindE (collectE (slideStep board pos) directions) (\<lambda>slides.
                        Inr (moves @ slides))
                 else Inr moves)))"

text \<open>The squares in the order of the nested \<^verbatim>\<open>for\<close> loops over \<^verbatim>\<open>r\<close> and \<^verbatim>\<open>c\<close>.\<close>

definition squares :: "Position list" where
  "squares = map (\<lambda>(r, c). \<lparr>row = r, col = c\<rparr>)
               (List.product [0..<BOARD_SIZE] [0..<BOARD_SIZE])"

text \<open>The body of the loops of \<^verbatim>\<open>hasAnyJumps\<close> at one square: can this piece jump?\<close>

definition canJumpFrom :: "BoardState \<Rightarrow> Player \<Rightarrow> Position \<Rightarrow> error + bool" where
  "canJumpFrom board plr pos =
     bindE (getAt board pos) (\<lambda>cell.
       case cell of
         None \<Rightarrow> Inr False
       | Some piece \<Rightarrow>
           if player piece = plr
           then bindE (getValidMoves board pos False) (\<lambda>moves.
                  Inr (list_ex isJump moves))
           else Inr False)"

definition hasAnyJumps :: "BoardState \<Rightarrow> Player \<Rightarrow> error + bool" where
  "hasAnyJumps board plr = anyE (canJumpFrom board plr) squares"

section \<open>Move application\<close>

definition otherPlayer :: "Player \<Rightarrow> Player" where
  "otherPlayer plr = (if plr = Red then Black else Red)"

definition cloneBoard :: "BoardState \<Rightarrow> BoardState" where
  "cloneBoard board =
     map (\<lambda>rw. map (\<lambda>p. case p of Some q \<Rightarrow> Some q | None \<Rightarrow> None) rw) board"

record SimResult =
  newBoard :: BoardState
  nextTurn :: Player
  nextMustJumpFrom :: "Position option"

definition promote :: "Piece \<Rightarrow> Position \<Rightarrow> Piece" where
  "promote piece dest =
     (if \<not> isKing piece
      then (if (player piece = Red \<and> row dest = 0)
               \<or> (player piece = Black \<and> row dest = BOARD_SIZE - 1)
            then piece\<lparr>isKing := True\<rparr> else piece)
      else piece)"

definition applyToBoard :: "BoardState \<Rightarrow> Move \<Rightarrow> error + BoardState" where
  "applyToBoard board move =
     (let newBoard = cloneBoard board
      in bindE (getAt newBoard (from_pos move)) (\<lambda>cell.
         bindE (setAt newBoard (to_pos move) cell) (\<lambda>b1.
         bindE (setAt b1 (from_pos move) None) (\<lambda>b2.
         bindE (if isJump move
                then (case jumpedPiece move of
                        Some j \<Rightarrow> setAt b2 j None
                      | None \<Rightarrow> Inr b2)
                else Inr b2) (\<lambda>b3.
         case cell of
           None \<Rightarrow> Inl TypeError
         | Some piece \<Rightarrow>
             if to_pos move = from_pos move
                \<or> (isJump move \<and> jumpedPiece move = Some (to_pos move))
             then Inr b3
             else setAt b3 (to_pos move) (Some (promote piece (to_pos move))))))))"

definition simulateMove :: "BoardState \<Rightarrow> Move \<Rightarrow> Player \<Rightarrow> error + SimResult" where
  "simulateMove board move currentPlayer =
     bindE (applyToBoard board move) (\<lambda>newBoard.
       let passes = \<lparr>newBoard = newBoard,
                      nextTurn = otherPlayer currentPlayer,
                      nextMustJumpFrom = None\<rparr>
       in if isJump move
          then bindE (getValidMoves newBoard (to_pos move) True) (\<lambda>moves.
                 let followUpMoves = filter isJump moves
                 in if followUpMoves \<noteq> []
                    then Inr \<lparr>newBoard = newBoard,
                              nextTurn = currentPlayer,
                              nextMustJumpFrom = Some (to_pos move)\<rparr>
                    else Inr passes)
          else Inr passes)"

section \<open>Static evaluation\<close>

definition pieceValue :: "Piece \<Rightarrow> Position \<Rightarrow> int" where
  "pieceValue piece pos =
     (let r = row pos; c = col pos;
          v0 = (if isKing piece then 30 else 10);
          v1 = (if player piece = Red
                then v0 + (7 - int r) + (if r = 7 then 2 else 0)
                else v0 + int r + (if r = 0 then 2 else 0))
      in if c \<ge> 2 \<and> c \<le> 5 \<and> r \<ge> 2 \<and> r \<le> 5 then v1 + 2 else v1)"

text \<open>The body of the loops of \<^verbatim>\<open>evaluateBoard\<close> at one square; it never breaks.\<close>

definition evalStep :: "BoardState \<Rightarrow> Player \<Rightarrow> Position \<Rightarrow> int \<Rightarrow> error + (int \<times> bool)" where
  "evalStep board plr pos score =
     bindE (getAt board pos) (\<lambda>cell.
       case cell of
         None \<Rightarrow> Inr (score, False)
       | Some piece \<Rightarrow>
           let v = pieceValue piece pos
           in Inr (if player piece = plr then score + v else score - v, False))"

definition evaluateBoard :: "BoardState \<Rightarrow> Player \<Rightarrow> error + int" where
  "evaluateBoard board plr = forOfE (evalStep board plr) squares 0"

section \<open>Candidate moves\<close>

text \<open>
  The block that fills \<^verbatim>\<open>possibleMoves\<close>, the same in \<^verbatim>\<open>minimax\<close> and in
  \<^verbatim>\<open>getAiMove\<close>: the jumps from \<^verbatim>\<open>mustJumpFrom\<close> when it is set, and otherwise the
  moves of every piece of the player, cut down to jumps when \<^verbatim>\<open>hasAnyJumps\<close> holds.
  \<open>movesOfSquare\<close> is the body of its loops at one square.
\<close>

definition movesOfSquare :: "BoardState \<Rightarrow> Player \<Rightarrow> bool \<Rightarrow> Position \<Rightarrow> error + Move list" where
  "movesOfSquare board currentPlayer globalJump pos =
     bindE (getAt board pos) (\<lambda>cell.
       if (case cell of None \<Rightarrow> False | Some piece \<Rightarrow> player piece = currentPlayer)
       then bindE (getValidMoves board pos False) (\<lambda>moves.
              Inr (if globalJump then filter isJump moves else moves))
       else Inr [])"

definition allMoves :: "BoardState \<Rightarrow> Player \<Rightarrow> Position option \<Rightarrow> error + Move list" where
  "allMoves board currentPlayer mustJumpFrom =
     (case mustJumpFrom of
        Some p \<Rightarrow> bindE (getValidMoves board p True) (\<lambda>moves. Inr (filter isJump moves))
      | None \<Rightarrow>
          bindE (hasAnyJumps board currentPlayer) (\<lambda>globalJump.
            collectE (movesOfSquare board currentPlayer globalJump) squares))"

section \<open>Scores\<close>

datatype num = NegInf | Num int | PosInf

fun num_le :: "num \<Rightarrow> num \<Rightarrow> bool" where
  "num_le NegInf _ = True"
| "num_le _ PosInf = True"
| "num_le (Num a) (Num b) = (a \<le> b)"
| "num_le _ _ = False"

definition num_less :: "num \<Rightarrow> num \<Rightarrow> bool" where
  "num_less a b \<longleftrightarrow> \<not> num_le b a"

definition num_max :: "num \<Rightarrow> num \<Rightarrow> num" where
  "num_max a b = (if num_le a b then b else a)"

definition num_min :: "num \<Rightarrow> num \<Rightarrow> num" where
  "num_min a b = (if num_le a b then a else b)"

section \<open>The board as mutable arrays\<close>

text \<open>
  The source mutates arrays and piece objects in place. Here the row arrays and the
  piece objects live in a store, each under an address; a cell of a row holds the address
  of a piece object or \<^verbatim>\<open>null\<close>. The outer array of a board is never written to, so a
  board is the list of the addresses of its rows. A new object gets the next address.
\<close>

type_synonym ref = nat

record Heap =
  rowArr :: "ref option list list"
  pieceObj :: "Piece list"

type_synonym BoardRef = "ref list"

text \<open>The cells of a board, and the board value they stand for.\<close>

definition cellsOf :: "Heap \<Rightarrow> BoardRef \<Rightarrow> ref option list list" where
  "cellsOf h board = map (\<lambda>rr. rowArr h ! rr) board"

definition derefBoard :: "Piece list \<Rightarrow> ref option list list \<Rightarrow> BoardState" where
  "derefBoard ps cells = map (map (map_option (\<lambda>pr. ps ! pr))) cells"

definition absBoard :: "Heap \<Rightarrow> BoardRef \<Rightarrow> BoardState" where
  "absBoard h board = derefBoard (pieceObj h) (cellsOf h board)"

text \<open>
  \<^verbatim>\<open>row.map(p => p ? { ...p } : null)\<close>: every piece object of the row is copied to a
  fresh address.
\<close>

fun cloneCells :: "Piece list \<Rightarrow> ref option list \<Rightarrow> Piece list \<times> ref option list" where
  "cloneCells ps [] = (ps, [])"
| "cloneCells ps (None # cs) =
     (let (ps', cs') = cloneCells ps cs in (ps', None # cs'))"
| "cloneCells ps (Some pr # cs) =
     (let (ps', cs') = cloneCells (ps @ [ps ! pr]) cs in (ps', Some (length ps) # cs'))"

text \<open>\<^verbatim>\<open>board.map(row => ...)\<close>: every row is copied to a fresh row array.\<close>

fun cloneRows :: "Heap \<Rightarrow> ref list \<Rightarrow> Heap \<times> ref list" where
  "cloneRows h [] = (h, [])"
| "cloneRows h (rr # rs) =
     (let (ps, cells) = cloneCells (pieceObj h) (rowArr h ! rr);
          h1 = \<lparr>rowArr = rowArr h @ [cells], pieceObj = ps\<rparr>;
          (h2, rs') = cloneRows h1 rs
      in (h2, length (rowArr h) # rs'))"

definition cloneBoardH :: "Heap \<Rightarrow> BoardRef \<Rightarrow> Heap \<times> BoardRef" where
  "cloneBoardH h board = cloneRows h board"

definition readH :: "Heap \<Rightarrow> BoardRef \<Rightarrow> Position \<Rightarrow> error + ref option" where
  "readH h board pos = getAt (cellsOf h board) pos"

definition writeH :: "Heap \<Rightarrow> BoardRef \<Rightarrow> Position \<Rightarrow> ref option \<Rightarrow> error + Heap" where
  "writeH h board pos v =
     (if row pos < length board
      then (let rr = board ! row pos
            in Inr (h\<lparr>rowArr := (rowArr h)[rr := jsStore (rowArr h ! rr) (col pos) v]\<rparr>))
      else Inl TypeError)"

text \<open>
  The statements of \<^verbatim>\<open>simulateMove\<close> that build the new board, on the store: the
  copy, then the stores into the copy and the promotion of the moved piece object. The
  result is the store they leave behind and the new board, or the exception thrown.
\<close>

definition moveOnH :: "Heap \<Rightarrow> BoardRef \<Rightarrow> Move \<Rightarrow> Heap \<times> (error + BoardRef)" where
  "moveOnH h0 copy move =
     (case readH h0 copy (from_pos move) of
        Inl e \<Rightarrow> (h0, Inl e)
      | Inr piece \<Rightarrow>
     (case writeH h0 copy (to_pos move) piece of
        Inl e \<Rightarrow> (h0, Inl e)
      | Inr h1 \<Rightarrow>
     (case writeH h1 copy (from_pos move) None of
        Inl e \<Rightarrow> (h1, Inl e)
      | Inr h2 \<Rightarrow>
     (case (if isJump move
            then (case jumpedPiece move of
                    Some j \<Rightarrow> writeH h2 copy j None
                  | None \<Rightarrow> Inr h2)
            else Inr h2) of
        Inl e \<Rightarrow> (h2, Inl e)
      | Inr h3 \<Rightarrow>
     (case piece of
        None \<Rightarrow> (h3, Inl TypeError)
      | Some pr \<Rightarrow>
          (h3\<lparr>pieceObj := (pieceObj h3)[pr := promote (pieceObj h3 ! pr) (to_pos move)]\<rparr>,
           Inr copy))))))"

definition applyToBoardH :: "Heap \<Rightarrow> BoardRef \<Rightarrow> Move \<Rightarrow> Heap \<times> (error + BoardRef)" where
  "applyToBoardH h board move =
     (let (h0, copy) = cloneBoardH h board in moveOnH h0 copy move)"

text \<open>Every address a board uses is one of an object of the store.\<close>

definition cellsOk :: "nat \<Rightarrow> ref option list \<Rightarrow> bool" where
  "cellsOk n cs \<longleftrightarrow> list_all (\<lambda>c. case c of None \<Rightarrow> True | Some pr \<Rightarrow> pr < n) cs"

definition heapOk :: "Heap \<Rightarrow> BoardRef \<Rightarrow> bool" where
  "heapOk h board \<longleftrightarrow>
     list_all (\<lambda>rr. rr < length (rowArr h) \<and> cellsOk (length (pieceObj h)) (rowArr h ! rr)) board"

section \<open>Notions used in the proofs\<close>

definition rowGet :: "'a option list \<Rightarrow> nat \<Rightarrow> 'a option" where
  "rowGet rw c = (if c < length rw then rw ! c else None)"

definition cellCount :: "Piece option \<Rightarrow> nat" where
  "cellCount c = (if c = None then 0 else 1)"

definition countPieces :: "BoardState \<Rightarrow> nat" where
  "countPieces board = sum_list (map (\<lambda>rw. sum_list (map cellCount rw)) board)"

text \<open>A square that holds a piece.\<close>

definition occupied :: "BoardState \<Rightarrow> Position \<Rightarrow> bool" where
  "occupied b pos \<longleftrightarrow>
     (case getAt b pos of Inl e \<Rightarrow> False | Inr None \<Rightarrow> False | Inr (Some p) \<Rightarrow> True)"

text \<open>What the move generator guarantees of a jump it emits.\<close>

definition genJump :: "BoardState \<Rightarrow> Move \<Rightarrow> bool" where
  "genJump b m \<longleftrightarrow>
     (case jumpedPiece m of
        None \<Rightarrow> False
      | Some j \<Rightarrow>
          occupied b (from_pos m)
          \<and> getAt b (to_pos m) = Inr None
          \<and> occupied b j
          \<and> to_pos m \<noteq> from_pos m \<and> j \<noteq> from_pos m \<and> j \<noteq> to_pos m
          \<and> row (to_pos m) < BOARD_SIZE \<and> col (to_pos m) < BOARD_SIZE)"

text \<open>A board of the game: eight rows of eight cells.\<close>

definition wfBoard :: "BoardState \<Rightarrow> bool" where
  "wfBoard b \<longleftrightarrow> length b = BOARD_SIZE \<and> list_all (\<lambda>rw. length rw = BOARD_SIZE) b"

definition onBoard :: "Position \<Rightarrow> bool" where
  "onBoard pos \<longleftrightarrow> row pos < BOARD_SIZE \<and> col pos < BOARD_SIZE"

text \<open>What the move generator guarantees of every move it emits.\<close>

definition generated :: "BoardState \<Rightarrow> Move \<Rightarrow> bool" where
  "generated b m \<longleftrightarrow>
     occupied b (from_pos m)
     \<and> getAt b (to_pos m) = Inr None
     \<and> onBoard (to_pos m)
     \<and> to_pos m \<noteq> from_pos m
     \<and> (if isJump m then genJump b m else jumpedPiece m = None)"

definition cellRefs :: "ref option list \<Rightarrow> ref list" where
  "cellRefs cs = concat (map (\<lambda>c. case c of None \<Rightarrow> [] | Some r \<Rightarrow> [r]) cs)"

text \<open>The three stores of a move into a board, for cells of any kind.\<close>

definition moveCells ::
  "'a option list list \<Rightarrow> Move \<Rightarrow> 'a option \<Rightarrow> error + 'a option list list" where
  "moveCells b m cell =
     bindE (setAt b (to_pos m) cell) (\<lambda>b1.
     bindE (setAt b1 (from_pos m) None) (\<lambda>b2.
       if isJump m
       then (case jumpedPiece m of Some j \<Rightarrow> setAt b2 j None | None \<Rightarrow> Inr b2)
       else Inr b2))"

section \<open>Example positions\<close>

definition redMan :: "Piece option" where
  "redMan = Some \<lparr>player = Red, isKing = False\<rparr>"

definition blackMan :: "Piece option" where
  "blackMan = Some \<lparr>player = Black, isKing = False\<rparr>"

definition redKing :: "Piece option" where
  "redKing = Some \<lparr>player = Red, isKing = True\<rparr>"

definition blackKing :: "Piece option" where
  "blackKing = Some \<lparr>player = Black, isKing = True\<rparr>"

definition emptyRow :: "Piece option list" where
  "emptyRow = [None, None, None, None, None, None, None, None]"

definition sq :: "nat \<Rightarrow> nat \<Rightarrow> Position" where
  "sq r c = \<lparr>row = r, col = c\<rparr>"

definition slide :: "Position \<Rightarrow> Position \<Rightarrow> Move" where
  "slide a b = \<lparr>from_pos = a, to_pos = b, isJump = False, jumpedPiece = None\<rparr>"

definition jump :: "Position \<Rightarrow> Position \<Rightarrow> Position \<Rightarrow> Move" where
  "jump a j b = \<lparr>from_pos = a, to_pos = b, isJump = True, jumpedPiece = Some j\<rparr>"

text \<open>A board with no piece at all.\<close>

definition emptyBoard :: BoardState where
  "emptyBoard = [emptyRow, emptyRow, emptyRow, emptyRow, emptyRow, emptyRow, emptyRow, emptyRow]"

text \<open>A lone red man on (5,2).\<close>

definition loneRedBoard :: BoardState where
  "loneRedBoard =
     [emptyRow, emptyRow, emptyRow, emptyRow, emptyRow,
      [None, None, redMan, None, None, None, None, None],
      emptyRow, emptyRow]"

text \<open>A red man on (5,2) that can capture the black man on (4,3), landing on (3,4).\<close>

definition captureBoard :: BoardState where
  "captureBoard =
     [emptyRow, emptyRow, emptyRow, emptyRow,
      [None, None, None, blackMan, None, None, None, None],
      [None, None, redMan, None, None, None, None, None],
      emptyRow, emptyRow]"

definition doubleJumpBoard :: BoardState where
  "doubleJumpBoard =
     [emptyRow, emptyRow,
      [None, None, None, None, None, blackMan, None, None],
      emptyRow,
      [None, None, None, blackMan, None, None, None, None],
      [None, None, redMan, None, None, None, None, None],
      emptyRow, emptyRow]"

text \<open>
  The red man on (2,1) can capture into its promotion row and, now a king, capture
  backwards from there; the black man on (6,5) is one step from its promotion row.
\<close>

definition promotionChainBoard :: BoardState where
  "promotionChainBoard =
     [emptyRow,
      [None, None, blackMan, None, blackMan, None, None, None],
      [None, redMan, None, None, None, None, None, None],
      emptyRow, emptyRow, emptyRow,
      [None, None, None, None, None, blackMan, None, None],
      emptyRow]"

text \<open>
  The red man on (5,2) has two moves. After the one to (4,1) the black man on (3,0)
  captures it; the move to (4,3) is safe.
\<close>

definition trapBoard :: BoardState where
  "trapBoard =
     [emptyRow, emptyRow, emptyRow,
      [blackMan, None, None, None, None, None, None, None],
      emptyRow,
      [None, None, redMan, None, None, None, None, None],
      [None, blackMan, None, None, None, None, None, None],
      emptyRow]"

text \<open>
  A store holding \<open>captureBoard\<close>: the six empty rows of the board are one and the same
  row array.
\<close>

definition captureHeap :: Heap where
  "captureHeap =
     \<lparr>rowArr = [[None, None, None, None, None, None, None, None],
                [None, None, None, Some 0, None, None, None, None],
                [None, None, Some 1, None, None, None, None, None]],
      pieceObj = [\<lparr>player = Black, isKing = False\<rparr>, \<lparr>player = Red, isKing = False\<rparr>]\<rparr>"

definition captureRef :: BoardRef where
  "captureRef = [0, 0, 0, 0, 1, 2, 0, 0]"

section \<open>Facts about exceptions, loops and board access\<close>

lemma bindE_Inr [simp, code]: "bindE (Inr x) f = f x"
  by (simp add: bindE_def)

lemma bindE_Inl [simp, code]: "bindE (Inl e) f = Inl e"
  by (simp add: bindE_def)

lemma bindE_cong [fundef_cong]:
  "m = m' \<Longrightarrow> (\<And>x. m' = Inr x \<Longrightarrow> f x = g x) \<Longrightarrow> bindE m f = bindE m' g"
  by (cases m') (simp_all add: bindE_def)

lemma bindE_eq_Inr: "bindE m f = Inr y \<longleftrightarrow> (\<exists>x. m = Inr x \<and> f x = Inr y)"
  by (cases m) simp_all

lemma forOfE_cong_aux:
  "(\<And>x u. x \<in> set xs \<Longrightarrow> body x u = body' x u) \<Longrightarrow> forOfE body xs s = forOfE body' xs s"
proof (induction xs arbitrary: s)
  case Nil
  show ?case by simp
next
  case (Cons y ys)
  have rest: "forOfE body ys u = forOfE body' ys u" for u
    using Cons.prems by (intro Cons.IH) simp
  have hd: "body y s = body' y s"
    using Cons.prems by simp
  show ?case by (simp add: rest hd cong: if_cong)
qed

lemma forOfE_cong [fundef_cong]:
  "xs = ys \<Longrightarrow> s = t \<Longrightarrow> (\<And>x u. x \<in> set ys \<Longrightarrow> body x u = body' x u)
   \<Longrightarrow> forOfE body xs s = forOfE body' ys t"
  using forOfE_cong_aux [of ys body body' t] by simp

lemma getAt_rowGet:
  "getAt b pos = (if row pos < length b then Inr (rowGet (b ! row pos) (col pos)) else Inl TypeError)"
  by (simp add: getAt_def getCell_def rowGet_def Let_def)

lemma rowGet_jsStore: "rowGet (jsStore rw c v) c' = (if c' = c then v else rowGet rw c')"
  by (auto simp: rowGet_def jsStore_def nth_append)

lemma rowCount_update:
  assumes "c < length rw"
  shows "sum_list (map cellCount (rw[c := v])) + cellCount (rw ! c)
         = sum_list (map cellCount rw) + cellCount v"
proof -
  have "cellCount (rw ! c) \<le> sum_list (map cellCount rw)"
    using assms elem_le_sum_list [of c "map cellCount rw"] by simp
  then show ?thesis
    using assms by (simp add: map_update sum_list_update)
qed

lemma rowCount_jsStore:
  "sum_list (map cellCount (jsStore rw c v)) + cellCount (rowGet rw c)
   = sum_list (map cellCount rw) + cellCount v"
proof (cases "c < length rw")
  case True
  then show ?thesis by (simp add: jsStore_def rowGet_def rowCount_update)
next
  case False
  have "sum_list (map cellCount (replicate n None)) = 0" for n
    by (induction n) (simp_all add: cellCount_def)
  with False show ?thesis by (simp add: jsStore_def rowGet_def cellCount_def)
qed

lemma setAt_get_same: "setAt b pos v = Inr b' \<Longrightarrow> getAt b' pos = Inr v"
  by (auto simp: setAt_def getAt_rowGet rowGet_jsStore split: if_splits)

lemma setAt_get_other:
  "setAt b pos v = Inr b' \<Longrightarrow> q \<noteq> pos \<Longrightarrow> getAt b' q = getAt b q"
  by (cases "row q = row pos")
     (auto simp: setAt_def getAt_rowGet rowGet_jsStore split: if_splits)

lemma setAt_length: "setAt b pos v = Inr b' \<Longrightarrow> length b' = length b"
  by (auto simp: setAt_def split: if_splits)

lemma setAt_count:
  assumes "setAt b pos v = Inr b'" and "getAt b pos = Inr old"
  shows "countPieces b' + cellCount old = countPieces b + cellCount v"
proof -
  let ?f = "\<lambda>rw. sum_list (map cellCount rw)"
  from assms have r: "row pos < length b"
    and b': "b' = b[row pos := jsStore (b ! row pos) (col pos) v]"
    and old: "old = rowGet (b ! row pos) (col pos)"
    by (auto simp: setAt_def getAt_rowGet split: if_splits)
  have le: "?f (b ! row pos) \<le> sum_list (map ?f b)"
    using r elem_le_sum_list [of "row pos" "map ?f b"] by simp
  have "countPieces b' = sum_list (map ?f b) + ?f (jsStore (b ! row pos) (col pos) v) - ?f (b ! row pos)"
    using r by (simp add: countPieces_def b' map_update sum_list_update)
  with le rowCount_jsStore [of "b ! row pos" "col pos" v] show ?thesis
    by (simp add: countPieces_def old)
qed

lemma cloneBoard_id [simp]: "cloneBoard b = b"
proof -
  have "(\<lambda>p. case p of Some q \<Rightarrow> Some q | None \<Rightarrow> None) = (\<lambda>p::Piece option. p)"
    by (auto split: option.splits)
  then show ?thesis by (simp add: cloneBoard_def)
qed

lemma collectE_mem:
  "collectE f xs = Inr ys \<Longrightarrow> y \<in> set ys \<Longrightarrow> \<exists>x\<in>set xs. \<exists>zs. f x = Inr zs \<and> y \<in> set zs"
proof (induction xs arbitrary: ys)
  case Nil
  then show ?case by simp
next
  case (Cons x xs)
  from Cons.prems(1) obtain zs1 zs2 where
    f: "f x = Inr zs1" and r: "collectE f xs = Inr zs2" and ys: "ys = zs1 @ zs2"
    by (auto simp: bindE_eq_Inr)
  from Cons.prems(2) ys consider "y \<in> set zs1" | "y \<in> set zs2" by auto
  then show ?case
  proof cases
    case 1
    with f show ?thesis by auto
  next
    case 2
    from Cons.IH [OF r 2] show ?thesis by auto
  qed
qed

lemma occupied_iff: "occupied b pos \<longleftrightarrow> (\<exists>p. getAt b pos = Inr (Some p))"
  by (simp add: occupied_def split: sum.splits option.splits)

section \<open>The measure of the search\<close>

lemma directions_unit:
  "d \<in> set (directionsOf piece) \<Longrightarrow> (fst d = 1 \<or> fst d = -1) \<and> (snd d = 1 \<or> snd d = -1)"
  by (auto simp: directionsOf_def split: if_splits)

lemma jumpStep_gen:
  assumes "jumpStep b pos piece d = Inr ms" and "m \<in> set ms"
    and "d \<in> set (directionsOf piece)" and "getAt b pos = Inr (Some piece)"
  shows "genJump b m \<and> isJump m \<and> from_pos m = pos"
proof -
  obtain r c where pos: "pos = \<lparr>row = r, col = c\<rparr>" by (cases pos) auto
  from directions_unit [OF assms(3)] assms(1,2,4) show ?thesis
    unfolding pos
    by (auto simp: jumpStep_def Let_def bindE_eq_Inr isValidPos_def BOARD_SIZE_def
          genJump_def occupied_iff getAt_def nat_eq_iff nat_less_iff
        split: if_splits option.splits)
qed

lemma slideStep_not_jump:
  "slideStep b pos d = Inr ms \<Longrightarrow> m \<in> set ms \<Longrightarrow> \<not> isJump m"
  by (auto simp: slideStep_def Let_def bindE_eq_Inr split: if_splits)

lemma getValidMoves_None: "getAt b pos = Inr None \<Longrightarrow> getValidMoves b pos mj = Inr []"
  by (simp add: getValidMoves_def)

lemma getValidMoves_Some:
  "getAt b pos = Inr (Some piece) \<Longrightarrow>
   getValidMoves b pos mj =
     bindE (collectE (jumpStep b pos piece) (directionsOf piece)) (\<lambda>jumps.
       if mj \<and> jumps \<noteq> [] then Inr jumps
       else bindE (collectE (slideStep b pos) (directionsOf piece)) (\<lambda>slides.
              Inr (jumps @ slides)))"
  by (cases "collectE (jumpStep b pos piece) (directionsOf piece)")
     (auto simp: getValidMoves_def Let_def)

lemma getValidMoves_cases:
  assumes "getValidMoves b pos mj = Inr ms"
  obtains (empty) "getAt b pos = Inr None" "ms = []"
  | (piece) piece jumps slides where "getAt b pos = Inr (Some piece)"
      "collectE (jumpStep b pos piece) (directionsOf piece) = Inr jumps"
      "mj \<and> jumps \<noteq> [] \<longrightarrow> ms = jumps"
      "\<not> (mj \<and> jumps \<noteq> []) \<longrightarrow>
         collectE (slideStep b pos) (directionsOf piece) = Inr slides \<and> ms = jumps @ slides"
proof (cases "getAt b pos")
  case (Inl e)
  with assms show ?thesis by (simp add: getValidMoves_def)
next
  case (Inr cell)
  show ?thesis
  proof (cases cell)
    case None
    with Inr assms empty show ?thesis by (simp add: getValidMoves_None)
  next
    case (Some pc)
    with Inr have g: "getAt b pos = Inr (Some pc)" by simp
    from assms obtain jumps where
      j: "collectE (jumpStep b pos pc) (directionsOf pc) = Inr jumps"
      and r: "(if mj \<and> jumps \<noteq> [] then Inr jumps
               else bindE (collectE (slideStep b pos) (directionsOf pc)) (\<lambda>slides.
                      Inr (jumps @ slides))) = Inr ms"
      unfolding getValidMoves_Some [OF g] bindE_eq_Inr by blast
    show ?thesis
    proof (cases "mj \<and> jumps \<noteq> []")
      case True
      with r have "ms = jumps" by simp
      with True g j show ?thesis by (intro piece [of pc jumps "[]"]) auto
    next
      case False
      with r obtain slides where
        "collectE (slideStep b pos) (directionsOf pc) = Inr slides" "ms = jumps @ slides"
        by (auto simp: bindE_eq_Inr)
      with False g j show ?thesis by (intro piece [of pc jumps slides]) auto
    qed
  qed
qed

lemma getValidMoves_jump_gen:
  assumes "getValidMoves b pos mj = Inr ms" and "m \<in> set ms" and "isJump m"
  shows "genJump b m \<and> from_pos m = pos"
  using assms(1)
proof (cases rule: getValidMoves_cases)
  case empty
  with assms(2) show ?thesis by simp
next
  case (piece piece jumps slides)
  have "m \<in> set jumps"
  proof (cases "mj \<and> jumps \<noteq> []")
    case True
    with piece(3) assms(2) show ?thesis by simp
  next
    case False
    with piece(4) have sl: "collectE (slideStep b pos) (directionsOf piece) = Inr slides"
      and ms: "ms = jumps @ slides" by auto
    have "m \<notin> set slides"
      using collectE_mem [OF sl] slideStep_not_jump assms(3) by blast
    with ms assms(2) show ?thesis by simp
  qed
  from collectE_mem [OF piece(2) this] obtain d zs where
    "d \<in> set (directionsOf piece)" "jumpStep b pos piece d = Inr zs" "m \<in> set zs"
    by blast
  from jumpStep_gen [OF this(2,3,1) piece(1)] show ?thesis by simp
qed

lemma allMoves_jump_gen:
  assumes "allMoves b cp mjf = Inr pm" and "m \<in> set pm" and "isJump m"
  shows "genJump b m"
proof (cases mjf)
  case (Some p)
  with assms(1) obtain ms where "getValidMoves b p True = Inr ms" "pm = filter isJump ms"
    by (auto simp: allMoves_def bindE_eq_Inr)
  with assms(2) getValidMoves_jump_gen [of b p True ms m] show ?thesis by simp
next
  case None
  with assms(1) obtain gj where
    c: "collectE (movesOfSquare b cp gj) squares = Inr pm"
    by (auto simp: allMoves_def bindE_eq_Inr)
  from collectE_mem [OF c assms(2)] obtain pos zs where
    "movesOfSquare b cp gj pos = Inr zs" and "m \<in> set zs"
    by blast
  then obtain ms where "getValidMoves b pos False = Inr ms" "m \<in> set ms"
    by (auto simp: movesOfSquare_def bindE_eq_Inr split: if_splits)
  from getValidMoves_jump_gen [OF this assms(3)] show ?thesis by simp
qed

lemma otherPlayer_neq [simp]: "otherPlayer p \<noteq> p" "p \<noteq> otherPlayer p"
  by (cases p; simp add: otherPlayer_def)+

lemma simulateMove_cases:
  assumes "simulateMove b m p = Inr res"
  obtains (continues) ms where "applyToBoard b m = Inr (newBoard res)" "isJump m"
      "getValidMoves (newBoard res) (to_pos m) True = Inr ms" "filter isJump ms \<noteq> []"
      "nextTurn res = p" "nextMustJumpFrom res = Some (to_pos m)"
  | (passes) "applyToBoard b m = Inr (newBoard res)"
      "nextTurn res = otherPlayer p" "nextMustJumpFrom res = None"
      "isJump m \<longrightarrow> (\<exists>ms. getValidMoves (newBoard res) (to_pos m) True = Inr ms
                       \<and> filter isJump ms = [])"
proof -
  from assms obtain nb where nb: "applyToBoard b m = Inr nb"
    and r: "(let passes = \<lparr>newBoard = nb, nextTurn = otherPlayer p, nextMustJumpFrom = None\<rparr>
       in if isJump m
          then bindE (getValidMoves nb (to_pos m) True) (\<lambda>moves.
                 let followUpMoves = filter isJump moves
                 in if followUpMoves \<noteq> []
                    then Inr \<lparr>newBoard = nb, nextTurn = p,
                              nextMustJumpFrom = Some (to_pos m)\<rparr>
                    else Inr passes)
          else Inr passes) = Inr res"
    unfolding simulateMove_def bindE_eq_Inr by blast
  show ?thesis
  proof (cases "isJump m")
    case False
    with r have "res = \<lparr>newBoard = nb, nextTurn = otherPlayer p, nextMustJumpFrom = None\<rparr>"
      by (simp add: Let_def)
    with nb False show ?thesis by (intro passes) simp_all
  next
    case True
    with r have "bindE (getValidMoves nb (to_pos m) True) (\<lambda>moves.
                if filter isJump moves \<noteq> []
                then Inr \<lparr>newBoard = nb, nextTurn = p, nextMustJumpFrom = Some (to_pos m)\<rparr>
                else Inr \<lparr>newBoard = nb, nextTurn = otherPlayer p, nextMustJumpFrom = None\<rparr>)
               = Inr res"
      by (simp add: Let_def)
    then obtain ms where ms: "getValidMoves nb (to_pos m) True = Inr ms"
      and r': "(if filter isJump ms \<noteq> []
                then Inr \<lparr>newBoard = nb, nextTurn = p, nextMustJumpFrom = Some (to_pos m)\<rparr>
                else Inr \<lparr>newBoard = nb, nextTurn = otherPlayer p, nextMustJumpFrom = None\<rparr>)
               = (Inr res :: error + SimResult)"
      unfolding bindE_eq_Inr by blast
    show ?thesis
    proof (cases "filter isJump ms = []")
      case True
      with r' have "res = \<lparr>newBoard = nb, nextTurn = otherPlayer p, nextMustJumpFrom = None\<rparr>"
        by simp
      with nb ms True show ?thesis by (intro passes) simp_all
    next
      case False
      with r' have "res = \<lparr>newBoard = nb, nextTurn = p, nextMustJumpFrom = Some (to_pos m)\<rparr>"
        by simp
      with nb ms False \<open>isJump m\<close> show ?thesis by (intro continues [of ms]) simp_all
    qed
  qed
qed

lemma simulateMove_continues_jump:
  "simulateMove b m p = Inr res \<Longrightarrow> nextTurn res = p \<Longrightarrow> isJump m"
  by (erule simulateMove_cases) simp_all

lemma simulateMove_board:
  "simulateMove b m p = Inr res \<Longrightarrow> applyToBoard b m = Inr (newBoard res)"
  by (erule simulateMove_cases) simp_all

lemma applyToBoard_genJump_count:
  assumes "genJump b m" and "isJump m" and "applyToBoard b m = Inr b'"
  shows "countPieces b' + 1 = countPieces b"
proof -
  from assms(1) obtain j piece q where
    j: "jumpedPiece m = Some j" and fr: "getAt b (from_pos m) = Inr (Some piece)"
    and to: "getAt b (to_pos m) = Inr None" and mid: "getAt b j = Inr (Some q)"
    and ne: "to_pos m \<noteq> from_pos m" "j \<noteq> from_pos m" "j \<noteq> to_pos m"
    by (auto simp: genJump_def occupied_iff split: option.splits)
  from assms(3) fr j assms(2) ne obtain b1 b2 b3 where
    b1: "setAt b (to_pos m) (Some piece) = Inr b1"
    and b2: "setAt b1 (from_pos m) None = Inr b2"
    and b3: "setAt b2 j None = Inr b3"
    and b4: "setAt b3 (to_pos m) (Some (promote piece (to_pos m))) = Inr b'"
    by (auto simp: applyToBoard_def bindE_eq_Inr Let_def)
  have c1: "countPieces b1 = countPieces b + 1"
    using setAt_count [OF b1 to] by (simp add: cellCount_def)
  have "getAt b1 (from_pos m) = Inr (Some piece)"
    using setAt_get_other [OF b1, of "from_pos m"] ne fr by simp
  from setAt_count [OF b2 this] have c2: "countPieces b2 + 1 = countPieces b1"
    by (simp add: cellCount_def)
  have "getAt b2 j = Inr (Some q)"
    using setAt_get_other [OF b2, of j] setAt_get_other [OF b1, of j] ne mid by simp
  from setAt_count [OF b3 this] have c3: "countPieces b3 + 1 = countPieces b2"
    by (simp add: cellCount_def)
  have "getAt b3 (to_pos m) = Inr (Some piece)"
    using setAt_get_other [OF b3, of "to_pos m"] setAt_get_other [OF b2, of "to_pos m"]
      setAt_get_same [OF b1] ne by simp
  from setAt_count [OF b4 this] have c4: "countPieces b' = countPieces b3"
    by (simp add: cellCount_def)
  from c1 c2 c3 c4 show ?thesis by simp
qed

lemma chain_step_decreases:
  assumes "allMoves b cp mjf = Inr pm" and "m \<in> set pm"
    and "simulateMove b m p = Inr res" and "nextTurn res = p"
  shows "countPieces (newBoard res) < countPieces b"
proof -
  have j: "isJump m" using assms(3,4) by (rule simulateMove_continues_jump)
  have "genJump b m" using assms(1,2) j by (rule allMoves_jump_gen)
  from applyToBoard_genJump_count [OF this j simulateMove_board [OF assms(3)]]
  show ?thesis by simp
qed

section \<open>The search: minimax with alpha-beta pruning\<close>

function minimax ::
  "BoardState \<Rightarrow> nat \<Rightarrow> num \<Rightarrow> num \<Rightarrow> bool \<Rightarrow> Player \<Rightarrow> Position option \<Rightarrow> error + num"
where
  "minimax board depth alpha beta maximizingPlayer plr mustJumpFrom =
     (if depth = 0 then bindE (evaluateBoard board plr) (\<lambda>v. Inr (Num v))
      else
        bindE (allMoves board (if maximizingPlayer then plr else otherPlayer plr) mustJumpFrom)
          (\<lambda>possibleMoves.
            if possibleMoves = []
            then Inr (if maximizingPlayer then Num (- 10000) else Num 10000)
            else if maximizingPlayer
            then
              bindE (forOfE (\<lambda>move st.
                       bindE (simulateMove board move plr) (\<lambda>res.
                         let isTurnContinuing = (nextTurn res = plr);
                             nextDepth = (if isTurnContinuing then depth else depth - 1);
                             nextMaximizing = (if isTurnContinuing then True else False)
                         in bindE (minimax (newBoard res) nextDepth (snd st) beta
                                     nextMaximizing plr (nextMustJumpFrom res)) (\<lambda>evalScore.
                              let maxEval = num_max (fst st) evalScore;
                                  alpha' = num_max (snd st) evalScore
                              in Inr ((maxEval, alpha'), num_le beta alpha'))))
                     possibleMoves (NegInf, alpha))
                (\<lambda>st. Inr (fst st))
            else
              bindE (forOfE (\<lambda>move st.
                       bindE (simulateMove board move (otherPlayer plr)) (\<lambda>res.
                         let isTurnContinuing = (nextTurn res = otherPlayer plr);
                             nextDepth = (if isTurnContinuing then depth else depth - 1);
                             nextMaximizing = (if isTurnContinuing then False else True)
                         in bindE (minimax (newBoard res) nextDepth alpha (snd st)
                                     nextMaximizing plr (nextMustJumpFrom res)) (\<lambda>evalScore.
                              let minEval = num_min (fst st) evalScore;
                                  beta' = num_min (snd st) evalScore
                              in Inr ((minEval, beta'), num_le beta' alpha))))
                     possibleMoves (PosInf, beta))
                (\<lambda>st. Inr (fst st))))"
  by pat_completeness auto

termination
proof (relation "inv_image (less_than <*lex*> less_than)
          (\<lambda>(board, depth, alpha, beta, mx, plr, mjf). (depth, countPieces board))",
       goal_cases)
  case 1
  show ?case by (intro wf_inv_image wf_lex_prod wf_less_than)
next
  case (2 board depth alpha beta maximizingPlayer plr mustJumpFrom pm move st res cont nd nm)
  then show ?case
    using chain_step_decreases [of board plr mustJumpFrom pm move plr res]
    by (auto simp: )
next
  case (3 board depth alpha beta maximizingPlayer plr mustJumpFrom pm move st res cont nd nm)
  then show ?case
    using chain_step_decreases [of board "otherPlayer plr" mustJumpFrom pm move "otherPlayer plr" res]
    by (auto simp: )
qed

declare minimax.simps [simp del]

section \<open>Move selection\<close>

text \<open>
  The score \<^verbatim>\<open>getAiMove\<close> gives a candidate move: the search of the position after
  the move, one ply shallower unless the move continues a capture chain.
\<close>

definition moveScore :: "BoardState \<Rightarrow> Player \<Rightarrow> nat \<Rightarrow> Move \<Rightarrow> error + num" where
  "moveScore board plr depth move =
     bindE (simulateMove board move plr) (\<lambda>res.
       let isTurnContinuing = (nextTurn res = plr);
           nextDepth = (if isTurnContinuing then depth else depth - 1);
           nextMaximizing = (if isTurnContinuing then True else False)
       in minimax (newBoard res) nextDepth NegInf PosInf nextMaximizing plr
            (nextMustJumpFrom res))"

text \<open>The body of the scan for the best move; the state is \<^verbatim>\<open>(bestMove, maxEval)\<close>.\<close>

definition scanStep ::
  "BoardState \<Rightarrow> Player \<Rightarrow> nat \<Rightarrow> Move \<Rightarrow> Move \<times> num \<Rightarrow> error + ((Move \<times> num) \<times> bool)" where
  "scanStep board plr depth move st =
     bindE (moveScore board plr depth move) (\<lambda>evalScore.
       Inr (if num_less (snd st) evalScore then (move, evalScore) else st, False))"

text \<open>\<^verbatim>\<open>xs[i]\<close> where the index may fall outside the array: \<^verbatim>\<open>undefined\<close> there.\<close>

definition jsIndex :: "'a list \<Rightarrow> int \<Rightarrow> 'a option" where
  "jsIndex xs i = (if 0 \<le> i \<and> i < int (length xs) then Some (xs ! nat i) else None)"

text \<open>
  \<^verbatim>\<open>getAiMove\<close>. Its two sources of randomness are parameters: \<open>rnd\<close> is the value of
  \<^verbatim>\<open>Math.random()\<close> drawn on the easy tier, and \<open>shuffle\<close> is the reordering that
  \<^verbatim>\<open>possibleMoves.sort(() => Math.random() - 0.5)\<close> performs. A result \<open>None\<close> is the
  source's \<^verbatim>\<open>null\<close>. On the easy tier the product \<^verbatim>\<open>Math.random() * possibleMoves.length\<close>
  is taken in the reals, where the source rounds it to a double before \<^verbatim>\<open>Math.floor\<close>: for
  a draw next to a multiple of \<open>1 / length\<close> the source may pick the neighbouring candidate.
  The candidates that can be drawn are the same, and the facts below about the easy tier
  hold for every value of \<open>rnd\<close>.
\<close>

definition getAiMove ::
  "BoardState \<Rightarrow> Player \<Rightarrow> Difficulty \<Rightarrow> Position option \<Rightarrow> real \<Rightarrow> (Move list \<Rightarrow> Move list)
   \<Rightarrow> error + Move option" where
  "getAiMove board plr difficulty mustJumpFrom rnd shuffle =
     bindE (allMoves board plr mustJumpFrom) (\<lambda>possibleMoves.
       if possibleMoves = [] then Inr None
       else if difficulty = Easy
       then Inr (jsIndex possibleMoves \<lfloor>rnd * real (length possibleMoves)\<rfloor>)
       else
         let depth = (if difficulty = Medium then 2 else 4);
             bestMove = possibleMoves ! 0;
             maxEval = NegInf;
             shuffled = shuffle possibleMoves
         in bindE (forOfE (scanStep board plr depth) shuffled (bestMove, maxEval))
              (\<lambda>st. Inr (Some (fst st))))"

text \<open>
  The reading of the claim: the position after the move, searched at the full depth of
  the tier.
\<close>

definition fullDepthScore :: "BoardState \<Rightarrow> Player \<Rightarrow> nat \<Rightarrow> Move \<Rightarrow> error + num" where
  "fullDepthScore board plr depth move =
     bindE (simulateMove board move plr) (\<lambda>res.
       minimax (newBoard res) depth NegInf PosInf (nextTurn res = plr) plr
         (nextMustJumpFrom res))"

text \<open>
  The invariant of the scan over the moves \<open>seen\<close> so far: nothing seen yet, or the
  best move is one of them, \<open>maxEval\<close> is its score and no seen move scores higher.
\<close>

definition scanInv ::
  "BoardState \<Rightarrow> Player \<Rightarrow> nat \<Rightarrow> Move list \<Rightarrow> Move \<times> num \<Rightarrow> bool" where
  "scanInv b p d seen st \<longleftrightarrow>
     (snd st = NegInf \<and> seen = [])
     \<or> (\<exists>s. snd st = Num s \<and> fst st \<in> set seen \<and> moveScore b p d (fst st) = Inr (Num s)
            \<and> (\<forall>m\<in>set seen. \<exists>s'. moveScore b p d m = Inr (Num s') \<and> s' \<le> s))"

section \<open>Facts about the generator, the applicator and the search\<close>

lemma evalStep_neg:
  "evalStep b Red pos s =
     (case evalStep b Black pos (- s) of Inl e \<Rightarrow> Inl e | Inr r \<Rightarrow> Inr (- fst r, False))"
proof (cases "getAt b pos")
  case (Inl e)
  then show ?thesis by (simp add: evalStep_def)
next
  case (Inr cell)
  show ?thesis
  proof (cases cell)
    case None
    with Inr show ?thesis by (simp add: evalStep_def)
  next
    case (Some piece)
    with Inr show ?thesis by (cases "player piece") (simp_all add: evalStep_def Let_def)
  qed
qed

lemma evalStep_no_break: "evalStep b p pos s = Inr r \<Longrightarrow> \<not> snd r"
  by (auto simp: evalStep_def bindE_eq_Inr Let_def split: option.splits)

lemma evaluate_loop_neg:
  "forOfE (evalStep b Red) sqs s
   = (case forOfE (evalStep b Black) sqs (- s) of Inl e \<Rightarrow> Inl e | Inr v \<Rightarrow> Inr (- v))"
proof (induction sqs arbitrary: s)
  case Nil
  show ?case by simp
next
  case (Cons pos sqs)
  show ?case
  proof (cases "evalStep b Black pos (- s)")
    case (Inl e)
    then show ?thesis by (simp add: evalStep_neg [of b pos s])
  next
    case (Inr r)
    then have red: "evalStep b Red pos s = Inr (- fst r, False)"
      by (simp add: evalStep_neg [of b pos s])
    from Inr have nb: "\<not> snd r" by (rule evalStep_no_break)
    from Cons.IH [of "- fst r"] Inr red nb show ?thesis by simp
  qed
qed

lemma collectE_all:
  assumes "collectE f xs = Inr ys"
    and "\<And>x zs z. x \<in> set xs \<Longrightarrow> f x = Inr zs \<Longrightarrow> z \<in> set zs \<Longrightarrow> P z"
  shows "list_all P ys"
  unfolding list_all_iff
proof
  fix y assume "y \<in> set ys"
  from collectE_mem [OF assms(1) this] obtain x zs where
    "x \<in> set xs" "f x = Inr zs" "y \<in> set zs" by blast
  then show "P y" by (rule assms(2))
qed

lemma jumpStep_isJump: "jumpStep b pos piece d = Inr ms \<Longrightarrow> m \<in> set ms \<Longrightarrow> isJump m"
  by (auto simp: jumpStep_def Let_def bindE_eq_Inr split: if_splits)

lemma wfBoard_getCell:
  "wfBoard b \<Longrightarrow> 0 \<le> r \<Longrightarrow> r < 8 \<Longrightarrow> \<exists>cell. getCell b r c = Inr cell"
  by (simp add: wfBoard_def getCell_def BOARD_SIZE_def)

lemma wfBoard_getAt:
  "wfBoard b \<Longrightarrow> row pos < 8 \<Longrightarrow> \<exists>cell. getAt b pos = Inr cell"
  by (simp add: getAt_def wfBoard_getCell)

lemma getAt_Some_onBoard:
  "wfBoard b \<Longrightarrow> getAt b pos = Inr (Some p) \<Longrightarrow> onBoard pos"
  by (auto simp: getAt_def getCell_def wfBoard_def onBoard_def Let_def list_all_length
      split: if_splits)

lemma collectE_ok:
  "(\<And>x. x \<in> set xs \<Longrightarrow> \<exists>ys. f x = Inr ys) \<Longrightarrow> \<exists>ys. collectE f xs = Inr ys"
proof (induction xs)
  case Nil
  show ?case by simp
next
  case (Cons x xs)
  from Cons.prems [of x] obtain ys where "f x = Inr ys" by auto
  moreover from Cons.IH Cons.prems obtain zs where "collectE f xs = Inr zs" by auto
  ultimately show ?case by simp
qed

lemma anyE_ok:
  "(\<And>x. x \<in> set xs \<Longrightarrow> \<exists>y. f x = Inr y) \<Longrightarrow> \<exists>y. anyE f xs = Inr y"
proof (induction xs)
  case Nil
  show ?case by (rule exI [of _ False]) simp
next
  case (Cons x xs)
  from Cons.prems [of x] obtain y where y: "f x = Inr y" by auto
  from Cons.IH Cons.prems obtain z where z: "anyE f xs = Inr z" by auto
  show ?case by (rule exI [of _ "y \<or> z"]) (simp add: y z)
qed

lemma jumpStep_ok:
  assumes "wfBoard b" and "row pos < 8" and "d \<in> set (directionsOf piece)"
  shows "\<exists>ms. jumpStep b pos piece d = Inr ms"
proof -
  let ?jr = "int (row pos) + fst d * 2" and ?jc = "int (col pos) + snd d * 2"
  let ?mr = "int (row pos) + fst d" and ?mc = "int (col pos) + snd d"
  show ?thesis
  proof (cases "isValidPos ?jr ?jc")
    case False
    then show ?thesis by (simp add: jumpStep_def Let_def)
  next
    case True
    with assms(2) directions_unit [OF assms(3)] have "0 \<le> ?jr" "?jr < 8" "0 \<le> ?mr" "?mr < 8"
      by (auto simp: isValidPos_def BOARD_SIZE_def)
    with wfBoard_getCell [OF assms(1), of ?jr ?jc] wfBoard_getCell [OF assms(1), of ?mr ?mc]
    obtain t md where "getCell b ?jr ?jc = Inr t" "getCell b ?mr ?mc = Inr md" by auto
    with True show ?thesis by (simp add: jumpStep_def Let_def)
  qed
qed

lemma slideStep_ok:
  assumes "wfBoard b"
  shows "\<exists>ms. slideStep b pos d = Inr ms"
proof (cases "isValidPos (int (row pos) + fst d) (int (col pos) + snd d)")
  case False
  then show ?thesis by (simp add: slideStep_def Let_def)
next
  case True
  then have "0 \<le> int (row pos) + fst d" "int (row pos) + fst d < 8"
    by (auto simp: isValidPos_def BOARD_SIZE_def)
  with wfBoard_getCell [OF assms, of "int (row pos) + fst d" "int (col pos) + snd d"]
  obtain t where "getCell b (int (row pos) + fst d) (int (col pos) + snd d) = Inr t" by auto
  with True show ?thesis by (simp add: slideStep_def Let_def)
qed

lemma getValidMoves_ok:
  assumes "wfBoard b" and "row pos < 8"
  shows "\<exists>ms. getValidMoves b pos mj = Inr ms"
proof -
  from wfBoard_getAt [OF assms] obtain cell where c: "getAt b pos = Inr cell" by auto
  show ?thesis
  proof (cases cell)
    case None
    with c show ?thesis by (simp add: getValidMoves_None)
  next
    case (Some piece)
    obtain jumps where j: "collectE (jumpStep b pos piece) (directionsOf piece) = Inr jumps"
      using collectE_ok [of "directionsOf piece" "jumpStep b pos piece"] jumpStep_ok [OF assms]
      by blast
    obtain slides where s: "collectE (slideStep b pos) (directionsOf piece) = Inr slides"
      using collectE_ok [of "directionsOf piece" "slideStep b pos"] slideStep_ok [OF assms(1)]
      by blast
    from c Some have "getAt b pos = Inr (Some piece)" by simp
    from getValidMoves_Some [OF this] j s show ?thesis by simp
  qed
qed

lemma squares_row: "pos \<in> set squares \<Longrightarrow> row pos < 8 \<and> col pos < 8"
  by (auto simp: squares_def BOARD_SIZE_def)

lemma hasAnyJumps_ok:
  assumes "wfBoard b"
  shows "\<exists>y. hasAnyJumps b p = Inr y"
  unfolding hasAnyJumps_def
proof (rule anyE_ok)
  fix pos assume "pos \<in> set squares"
  then have r: "row pos < 8" using squares_row by blast
  from wfBoard_getAt [OF assms r] obtain cell where c: "getAt b pos = Inr cell" by auto
  from getValidMoves_ok [OF assms r] obtain ms where "getValidMoves b pos False = Inr ms"
    by auto
  with c show "\<exists>y. canJumpFrom b p pos = Inr y"
    by (auto simp: canJumpFrom_def split: option.splits)
qed

lemma movesOfSquare_ok:
  assumes "wfBoard b" and "row pos < 8"
  shows "\<exists>ms. movesOfSquare b p gj pos = Inr ms"
proof -
  from wfBoard_getAt [OF assms] obtain cell where c: "getAt b pos = Inr cell" by auto
  from getValidMoves_ok [OF assms] obtain ms where "getValidMoves b pos False = Inr ms"
    by auto
  with c show ?thesis by (simp add: movesOfSquare_def)
qed

lemma allMoves_ok:
  assumes "wfBoard b" and "case mjf of None \<Rightarrow> True | Some p \<Rightarrow> row p < 8"
  shows "\<exists>pm. allMoves b cp mjf = Inr pm"
proof (cases mjf)
  case None
  from hasAnyJumps_ok [OF assms(1)] obtain gj where g: "hasAnyJumps b cp = Inr gj" by auto
  have "\<exists>pm. collectE (movesOfSquare b cp gj) squares = Inr pm"
    by (rule collectE_ok) (use movesOfSquare_ok [OF assms(1)] squares_row in blast)
  with None g show ?thesis by (simp add: allMoves_def)
next
  case (Some p)
  with assms(2) have "row p < 8" by simp
  from getValidMoves_ok [OF assms(1) this] obtain ms where "getValidMoves b p True = Inr ms"
    by auto
  with Some show ?thesis by (simp add: allMoves_def)
qed

lemma slideStep_gen:
  assumes "slideStep b pos d = Inr ms" and "m \<in> set ms"
    and "d \<in> set (directionsOf piece)" and "getAt b pos = Inr (Some piece)"
  shows "generated b m \<and> from_pos m = pos"
proof -
  obtain r c where pos: "pos = \<lparr>row = r, col = c\<rparr>" by (cases pos) auto
  from directions_unit [OF assms(3)] assms(1,2,4) show ?thesis
    unfolding pos
    by (auto simp: slideStep_def Let_def bindE_eq_Inr isValidPos_def BOARD_SIZE_def
          generated_def occupied_iff onBoard_def getAt_def nat_eq_iff nat_less_iff
        split: if_splits)
qed

lemma genJump_generated: "genJump b m \<Longrightarrow> isJump m \<Longrightarrow> generated b m"
  by (auto simp: genJump_def generated_def onBoard_def split: option.splits)

lemma getValidMoves_generated:
  assumes "getValidMoves b pos mj = Inr ms" and "m \<in> set ms"
  shows "generated b m \<and> from_pos m = pos"
proof (cases "isJump m")
  case True
  from getValidMoves_jump_gen [OF assms True] genJump_generated [of b m] True
  show ?thesis by simp
next
  case False
  from assms(1) show ?thesis
  proof (cases rule: getValidMoves_cases)
    case empty
    with assms(2) show ?thesis by simp
  next
    case (piece piece jumps slides)
    have nj: "m \<notin> set jumps"
      using collectE_mem [OF piece(2)] jumpStep_isJump False by blast
    have "\<not> (mj \<and> jumps \<noteq> [])"
      using piece(3) assms(2) nj by auto
    with piece(4) have sl: "collectE (slideStep b pos) (directionsOf piece) = Inr slides"
      and ms: "ms = jumps @ slides" by auto
    from ms assms(2) nj have "m \<in> set slides" by simp
    from collectE_mem [OF sl this] obtain d zs where
      "d \<in> set (directionsOf piece)" "slideStep b pos d = Inr zs" "m \<in> set zs"
      by blast
    from slideStep_gen [OF this(2,3,1) piece(1)] show ?thesis .
  qed
qed

lemma allMoves_generated:
  assumes "allMoves b cp mjf = Inr pm" and "m \<in> set pm"
  shows "generated b m"
proof (cases mjf)
  case (Some p)
  with assms(1) obtain ms where "getValidMoves b p True = Inr ms" "pm = filter isJump ms"
    by (auto simp: allMoves_def bindE_eq_Inr)
  with assms(2) getValidMoves_generated [of b p True ms m] show ?thesis by simp
next
  case None
  with assms(1) obtain gj where
    c: "collectE (movesOfSquare b cp gj) squares = Inr pm"
    by (auto simp: allMoves_def bindE_eq_Inr)
  from collectE_mem [OF c assms(2)] obtain pos zs where
    "movesOfSquare b cp gj pos = Inr zs" and "m \<in> set zs"
    by blast
  then obtain ms where "getValidMoves b pos False = Inr ms" "m \<in> set ms"
    by (auto simp: movesOfSquare_def bindE_eq_Inr split: if_splits)
  from getValidMoves_generated [OF this] show ?thesis by simp
qed

lemma setAt_ok: "row pos < length b \<Longrightarrow> \<exists>b'. setAt b pos v = Inr b'"
  by (simp add: setAt_def)

lemma setAt_wf:
  assumes "wfBoard b" and "onBoard pos" and "setAt b pos v = Inr b'"
  shows "wfBoard b'"
proof -
  from assms(2,3) assms(1) have b': "b' = b[row pos := (b ! row pos)[col pos := v]]"
    by (auto simp: setAt_def jsStore_def onBoard_def wfBoard_def list_all_length
        split: if_splits)
  with assms(1,2) show ?thesis
    by (auto simp: wfBoard_def onBoard_def list_all_length nth_list_update)
qed

text \<open>The board after a move the generator emitted, square by square.\<close>

lemma applyToBoard_generated:
  assumes "generated b m" and "getAt b (from_pos m) = Inr (Some piece)"
    and "wfBoard b"
  shows "\<exists>b'. applyToBoard b m = Inr b' \<and> wfBoard b'
           \<and> getAt b' (to_pos m) = Inr (Some (promote piece (to_pos m)))
           \<and> getAt b' (from_pos m) = Inr None
           \<and> (\<forall>j. isJump m \<and> jumpedPiece m = Some j \<longrightarrow> getAt b' j = Inr None)"
proof -
  from assms(1) have to: "getAt b (to_pos m) = Inr None" and ob: "onBoard (to_pos m)"
    and ne: "to_pos m \<noteq> from_pos m"
    by (auto simp: generated_def)
  have of: "onBoard (from_pos m)" using getAt_Some_onBoard [OF assms(3,2)] .
  have len: "length b = 8" using assms(3) by (simp add: wfBoard_def BOARD_SIZE_def)
  from ob len obtain b1 where b1: "setAt b (to_pos m) (Some piece) = Inr b1"
    using setAt_ok [of "to_pos m" b] by (auto simp: onBoard_def BOARD_SIZE_def)
  have w1: "wfBoard b1" using setAt_wf [OF assms(3) ob b1] .
  from "of" w1 obtain b2 where b2: "setAt b1 (from_pos m) None = Inr b2"
    using setAt_ok [of "from_pos m" b1] by (auto simp: onBoard_def wfBoard_def)
  have w2: "wfBoard b2" using setAt_wf [OF w1 "of" b2] .
  have g2to: "getAt b2 (to_pos m) = Inr (Some piece)"
    using setAt_get_other [OF b2, of "to_pos m"] setAt_get_same [OF b1] ne by simp
  have g2from: "getAt b2 (from_pos m) = Inr None"
    using setAt_get_same [OF b2] .
  show ?thesis
  proof (cases "isJump m")
    case False
    with assms(1) have jn: "jumpedPiece m = None" by (simp add: generated_def)
    from ob w2 obtain b4 where
      b4: "setAt b2 (to_pos m) (Some (promote piece (to_pos m))) = Inr b4"
      using setAt_ok [of "to_pos m" b2] by (auto simp: onBoard_def wfBoard_def)
    have "applyToBoard b m = Inr b4"
      using assms(2) b1 b2 b4 False ne by (simp add: applyToBoard_def)
    moreover have "wfBoard b4" using setAt_wf [OF w2 ob b4] .
    moreover have "getAt b4 (to_pos m) = Inr (Some (promote piece (to_pos m)))"
      using setAt_get_same [OF b4] .
    moreover have "getAt b4 (from_pos m) = Inr None"
      using setAt_get_other [OF b4, of "from_pos m"] g2from ne by simp
    ultimately show ?thesis using False by simp
  next
    case True
    with assms(1) have "genJump b m" by (simp add: generated_def)
    then obtain j q where j: "jumpedPiece m = Some j" and mid: "getAt b j = Inr (Some q)"
      and nj: "j \<noteq> from_pos m" "j \<noteq> to_pos m"
      by (auto simp: genJump_def occupied_iff split: option.splits)
    have oj: "onBoard j" using getAt_Some_onBoard [OF assms(3) mid] .
    from oj w2 obtain b3 where b3: "setAt b2 j None = Inr b3"
      using setAt_ok [of j b2] by (auto simp: onBoard_def wfBoard_def)
    have w3: "wfBoard b3" using setAt_wf [OF w2 oj b3] .
    from ob w3 obtain b4 where
      b4: "setAt b3 (to_pos m) (Some (promote piece (to_pos m))) = Inr b4"
      using setAt_ok [of "to_pos m" b3] by (auto simp: onBoard_def wfBoard_def)
    have "applyToBoard b m = Inr b4"
      using assms(2) b1 b2 b3 b4 True j ne nj by (simp add: applyToBoard_def)
    moreover have "wfBoard b4" using setAt_wf [OF w3 ob b4] .
    moreover have "getAt b4 (to_pos m) = Inr (Some (promote piece (to_pos m)))"
      using setAt_get_same [OF b4] .
    moreover have "getAt b4 (from_pos m) = Inr None"
      using setAt_get_other [OF b4, of "from_pos m"] setAt_get_other [OF b3, of "from_pos m"]
        g2from ne nj by simp
    moreover have "getAt b4 j = Inr None"
      using setAt_get_other [OF b4, of j] setAt_get_same [OF b3] nj by simp
    ultimately show ?thesis using True j by simp
  qed
qed

lemma simulateMove_ok:
  assumes "wfBoard b" and "generated b m"
  shows "\<exists>res. simulateMove b m p = Inr res \<and> wfBoard (newBoard res)
           \<and> (case nextMustJumpFrom res of None \<Rightarrow> True | Some q \<Rightarrow> row q < 8)"
proof -
  from assms(2) obtain piece where fr: "getAt b (from_pos m) = Inr (Some piece)"
    and ob: "onBoard (to_pos m)"
    by (auto simp: generated_def occupied_iff)
  from applyToBoard_generated [OF assms(2) fr assms(1)] obtain b' where
    a: "applyToBoard b m = Inr b'" and w: "wfBoard b'" by blast
  from ob have r: "row (to_pos m) < 8" by (simp add: onBoard_def BOARD_SIZE_def)
  from getValidMoves_ok [OF w r] obtain ms where
    g: "getValidMoves b' (to_pos m) True = Inr ms" by blast
  show ?thesis
    using a w r g by (simp add: simulateMove_def Let_def)
qed

lemma forOfE_inv:
  assumes "I s"
    and "\<And>x u. x \<in> set xs \<Longrightarrow> I u \<Longrightarrow> \<exists>r. body x u = Inr r \<and> I (fst r)"
  shows "\<exists>s'. forOfE body xs s = Inr s' \<and> I s'"
  using assms
proof (induction xs arbitrary: s)
  case Nil
  then show ?case by simp
next
  case (Cons x xs)
  from Cons.prems(2) [of x s] Cons.prems(1) obtain r where
    r: "body x s = Inr r" "I (fst r)" by auto
  show ?case
  proof (cases "snd r")
    case True
    with r show ?thesis by simp
  next
    case False
    from Cons.IH [OF r(2)] Cons.prems(2) obtain s' where
      "forOfE body xs (fst r) = Inr s'" "I s'" by auto
    with r False show ?thesis by simp
  qed
qed

lemma forOfE_post:
  assumes "xs \<noteq> []" and "I s"
    and step: "\<And>x u. x \<in> set xs \<Longrightarrow> I u \<Longrightarrow> \<exists>r. body x u = Inr r \<and> Q (fst r)"
    and QI: "\<And>u. Q u \<Longrightarrow> I u"
  shows "\<exists>s'. forOfE body xs s = Inr s' \<and> Q s'"
proof -
  from assms(1) obtain x xs' where xs: "xs = x # xs'" by (cases xs) auto
  from step [of x s] assms(2) xs obtain r where r: "body x s = Inr r" "Q (fst r)" by auto
  show ?thesis
  proof (cases "snd r")
    case True
    with r xs show ?thesis by simp
  next
    case False
    have "\<exists>s'. forOfE body xs' (fst r) = Inr s' \<and> Q s'"
    proof (rule forOfE_inv [where I = Q, OF r(2)])
      fix y u assume "y \<in> set xs'" "Q u"
      with step [of y u] QI [of u] xs show "\<exists>r. body y u = Inr r \<and> Q (fst r)" by simp
    qed
    with r False xs show ?thesis by simp
  qed
qed

lemma evalStep_ok:
  "wfBoard b \<Longrightarrow> row pos < 8 \<Longrightarrow> \<exists>r. evalStep b p pos s = Inr r"
  using wfBoard_getAt [of b pos]
  by (auto simp: evalStep_def Let_def split: option.splits)

lemma evaluateBoard_ok:
  assumes "wfBoard b"
  shows "\<exists>v. evaluateBoard b p = Inr v"
proof -
  have "\<exists>s'. forOfE (evalStep b p) squares 0 = Inr s' \<and> True"
  proof (rule forOfE_inv [where I = "\<lambda>_. True"])
    fix x u assume "x \<in> set squares"
    with squares_row have "row x < 8" by blast
    from evalStep_ok [OF assms this] show "\<exists>r. evalStep b p x u = Inr r \<and> True" by simp
  qed simp
  then show ?thesis by (simp add: evaluateBoard_def)
qed

lemma num_max_Num: "a \<noteq> PosInf \<Longrightarrow> \<exists>v. num_max a (Num n) = Num v"
  by (cases a) (simp_all add: num_max_def)

lemma num_min_Num: "a \<noteq> NegInf \<Longrightarrow> \<exists>v. num_min a (Num n) = Num v"
  by (cases a) (simp_all add: num_min_def)

text \<open>
  On a board of the game the search throws nothing and returns a finite score.
\<close>

lemma minimax_ok:
  "wfBoard b \<Longrightarrow> (case mjf of None \<Rightarrow> True | Some q \<Rightarrow> row q < 8)
   \<Longrightarrow> \<exists>v. minimax b d al be mx p mjf = Inr (Num v)"
proof (induction b d al be mx p mjf rule: minimax.induct)
  case (1 board depth alpha beta maximizingPlayer plr mustJumpFrom)
  note wf = "1.prems"(1) and mj = "1.prems"(2)
  show ?case
  proof (cases "depth = 0")
    case True
    from evaluateBoard_ok [OF wf] obtain v where "evaluateBoard board plr = Inr v" by blast
    with True show ?thesis by (simp add: minimax.simps)
  next
    case d: False
    let ?cp = "if maximizingPlayer then plr else otherPlayer plr"
    from allMoves_ok [OF wf mj] obtain pm where pm: "allMoves board ?cp mustJumpFrom = Inr pm"
      by blast
    show ?thesis
    proof (cases "pm = []")
      case True
      with d pm show ?thesis by (simp add: minimax.simps)
    next
      case ne: False
      show ?thesis
      proof (cases maximizingPlayer)
        case True
        let ?body = "\<lambda>move st.
                       bindE (simulateMove board move plr) (\<lambda>res.
                         let isTurnContinuing = (nextTurn res = plr);
                             nextDepth = (if isTurnContinuing then depth else depth - 1);
                             nextMaximizing = (if isTurnContinuing then True else False)
                         in bindE (minimax (newBoard res) nextDepth (snd st) beta
                                     nextMaximizing plr (nextMustJumpFrom res)) (\<lambda>evalScore.
                              let maxEval = num_max (fst st) evalScore;
                                  alpha' = num_max (snd st) evalScore
                              in Inr ((maxEval, alpha'), num_le beta alpha')))"
        have "\<exists>s'. forOfE ?body pm (NegInf, alpha) = Inr s' \<and> (\<exists>v. fst s' = Num v)"
        proof (rule forOfE_post [where I = "\<lambda>u. fst u \<noteq> PosInf", OF ne])
          show "fst (NegInf, alpha) \<noteq> PosInf" by simp
        next
          fix u :: "num \<times> num" assume "\<exists>v. fst u = Num v"
          then show "fst u \<noteq> PosInf" by auto
        next
          fix move and u :: "num \<times> num"
          assume mv: "move \<in> set pm" and u: "fst u \<noteq> PosInf"
          have gen: "generated board move"
            using allMoves_generated [OF pm mv] .
          from simulateMove_ok [OF wf gen, of plr] obtain res where
            res: "simulateMove board move plr = Inr res" and w': "wfBoard (newBoard res)"
            and mj': "case nextMustJumpFrom res of None \<Rightarrow> True | Some q \<Rightarrow> row q < 8"
            by blast
          from "1.IH"(1) [OF d _ ne True mv _ refl refl refl w' mj', of u] pm True res
          obtain v where
            "minimax (newBoard res) (if nextTurn res = plr then depth else depth - 1) (snd u) beta
               (if nextTurn res = plr then True else False) plr (nextMustJumpFrom res) = Inr (Num v)"
            by auto
          with res num_max_Num [OF u, of v]
          show "\<exists>r. ?body move u = Inr r \<and> (\<exists>v. fst (fst r) = Num v)"
            by (auto simp: Let_def)
        qed
        then obtain s' v where "forOfE ?body pm (NegInf, alpha) = Inr s'" "fst s' = Num v"
          by blast
        with d pm ne True show ?thesis
          by (subst minimax.simps) simp
      next
        case False
        let ?body = "\<lambda>move st.
                       bindE (simulateMove board move (otherPlayer plr)) (\<lambda>res.
                         let isTurnContinuing = (nextTurn res = otherPlayer plr);
                             nextDepth = (if isTurnContinuing then depth else depth - 1);
                             nextMaximizing = (if isTurnContinuing then False else True)
                         in bindE (minimax (newBoard res) nextDepth alpha (snd st)
                                     nextMaximizing plr (nextMustJumpFrom res)) (\<lambda>evalScore.
                              let minEval = num_min (fst st) evalScore;
                                  beta' = num_min (snd st) evalScore
                              in Inr ((minEval, beta'), num_le beta' alpha)))"
        have "\<exists>s'. forOfE ?body pm (PosInf, beta) = Inr s' \<and> (\<exists>v. fst s' = Num v)"
        proof (rule forOfE_post [where I = "\<lambda>u. fst u \<noteq> NegInf", OF ne])
          show "fst (PosInf, beta) \<noteq> NegInf" by simp
        next
          fix u :: "num \<times> num" assume "\<exists>v. fst u = Num v"
          then show "fst u \<noteq> NegInf" by auto
        next
          fix move and u :: "num \<times> num"
          assume mv: "move \<in> set pm" and u: "fst u \<noteq> NegInf"
          have gen: "generated board move"
            using allMoves_generated [OF pm mv] .
          from simulateMove_ok [OF wf gen, of "otherPlayer plr"] obtain res where
            res: "simulateMove board move (otherPlayer plr) = Inr res"
            and w': "wfBoard (newBoard res)"
            and mj': "case nextMustJumpFrom res of None \<Rightarrow> True | Some q \<Rightarrow> row q < 8"
            by blast
          from "1.IH"(2) [OF d _ ne False mv _ refl refl refl w' mj', of u] pm False res
          obtain v where
            "minimax (newBoard res) (if nextTurn res = otherPlayer plr then depth else depth - 1)
               alpha (snd u)
               (if nextTurn res = otherPlayer plr then False else True) plr
               (nextMustJumpFrom res) = Inr (Num v)"
            by auto
          with res num_min_Num [OF u, of v]
          show "\<exists>r. ?body move u = Inr r \<and> (\<exists>v. fst (fst r) = Num v)"
            by (auto simp: Let_def)
        qed
        then obtain s' v where "forOfE ?body pm (PosInf, beta) = Inr s'" "fst s' = Num v"
          by blast
        with d pm ne False show ?thesis
          by (subst minimax.simps) simp
      qed
    qed
  qed
qed

lemma pieceValue_bound: "row pos < 8 \<Longrightarrow> \<bar>pieceValue piece pos\<bar> \<le> 41"
  by (simp add: pieceValue_def Let_def)

lemma evalStep_bound:
  assumes "evalStep b p pos s = Inr r" and "row pos < 8"
  shows "\<bar>fst r - s\<bar> \<le> 41"
proof (cases "getAt b pos")
  case (Inl e)
  with assms(1) show ?thesis by (simp add: evalStep_def)
next
  case (Inr cell)
  show ?thesis
  proof (cases cell)
    case None
    with Inr assms(1) show ?thesis by (auto simp: evalStep_def)
  next
    case (Some piece)
    with Inr assms(1) pieceValue_bound [OF assms(2), of piece] show ?thesis
      by (auto simp: evalStep_def Let_def split: if_splits)
  qed
qed

lemma evaluate_loop_bound:
  "forOfE (evalStep b p) sqs s = Inr v \<Longrightarrow> (\<And>pos. pos \<in> set sqs \<Longrightarrow> row pos < 8)
   \<Longrightarrow> \<bar>v - s\<bar> \<le> 41 * int (length sqs)"
proof (induction sqs arbitrary: s)
  case Nil
  then show ?case by simp
next
  case (Cons pos sqs)
  from Cons.prems(1) obtain r where r: "evalStep b p pos s = Inr r"
    and rest: "forOfE (evalStep b p) sqs (fst r) = Inr v"
    using evalStep_no_break [of b p pos s]
    by (cases "evalStep b p pos s") auto
  from evalStep_bound [OF r] Cons.prems(2) have "\<bar>fst r - s\<bar> \<le> 41" by simp
  moreover from Cons.IH [OF rest] Cons.prems(2) have "\<bar>v - fst r\<bar> \<le> 41 * int (length sqs)"
    by simp
  ultimately show ?case by simp
qed

lemma length_squares: "length squares = 64"
  by (simp add: squares_def BOARD_SIZE_def)

lemma evaluateBoard_bound: "evaluateBoard b p = Inr v \<Longrightarrow> \<bar>v\<bar> \<le> 2624"
  using evaluate_loop_bound [of b p squares 0 v] squares_row
  by (simp add: evaluateBoard_def length_squares)

lemma applyToBoard_steps:
  assumes "applyToBoard b m = Inr b'" and "getAt b (from_pos m) = Inr (Some piece)"
  obtains b1 b2 b3 where
    "setAt b (to_pos m) (Some piece) = Inr b1"
    "setAt b1 (from_pos m) None = Inr b2"
    "(if isJump m then (case jumpedPiece m of Some j \<Rightarrow> setAt b2 j None | None \<Rightarrow> Inr b2)
      else Inr b2) = Inr b3"
    "(if to_pos m = from_pos m \<or> (isJump m \<and> jumpedPiece m = Some (to_pos m))
      then Inr b3
      else setAt b3 (to_pos m) (Some (promote piece (to_pos m)))) = Inr b'"
  using assms by (auto simp: applyToBoard_def bindE_eq_Inr)

text \<open>The board after a move, square by square, for any move whose origin holds a piece.\<close>

lemma applyToBoard_getAt:
  assumes "applyToBoard b m = Inr b'" and "getAt b (from_pos m) = Inr (Some piece)"
  shows "getAt b' q =
           (if q = from_pos m \<or> (isJump m \<and> jumpedPiece m = Some q) then Inr None
            else if q = to_pos m then Inr (Some (promote piece (to_pos m)))
            else getAt b q)"
proof -
  from assms obtain b1 b2 b3 where
    b1: "setAt b (to_pos m) (Some piece) = Inr b1"
    and b2: "setAt b1 (from_pos m) None = Inr b2"
    and b3: "(if isJump m then (case jumpedPiece m of Some j \<Rightarrow> setAt b2 j None | None \<Rightarrow> Inr b2)
      else Inr b2) = Inr b3"
    and b4: "(if to_pos m = from_pos m \<or> (isJump m \<and> jumpedPiece m = Some (to_pos m))
      then Inr b3
      else setAt b3 (to_pos m) (Some (promote piece (to_pos m)))) = Inr b'"
    by (rule applyToBoard_steps)
  have g1: "getAt b1 q = (if q = to_pos m then Inr (Some piece) else getAt b q)"
    using setAt_get_same [OF b1] setAt_get_other [OF b1, of q] by simp
  have g2: "getAt b2 q = (if q = from_pos m then Inr None else getAt b1 q)"
    using setAt_get_same [OF b2] setAt_get_other [OF b2, of q] by simp
  have g3: "getAt b3 q = (if isJump m \<and> jumpedPiece m = Some q then Inr None else getAt b2 q)"
  proof (cases "isJump m")
    case False
    with b3 show ?thesis by simp
  next
    case True
    show ?thesis
    proof (cases "jumpedPiece m")
      case None
      with True b3 show ?thesis by simp
    next
      case (Some j)
      with True b3 have s: "setAt b2 j None = Inr b3" by simp
      from setAt_get_same [OF s] setAt_get_other [OF s, of q] True Some show ?thesis by auto
    qed
  qed
  show ?thesis
  proof (cases "to_pos m = from_pos m \<or> (isJump m \<and> jumpedPiece m = Some (to_pos m))")
    case True
    with b4 have "b' = b3" by simp
    with g1 g2 g3 True show ?thesis by auto
  next
    case False
    with b4 have s: "setAt b3 (to_pos m) (Some (promote piece (to_pos m))) = Inr b'" by simp
    from setAt_get_same [OF s] setAt_get_other [OF s, of q] g1 g2 g3 False
    show ?thesis by auto
  qed
qed


lemma promote_player [simp]: "player (promote piece dest) = player piece"
  by (simp add: promote_def)

lemma promote_keeps_king: "isKing piece \<Longrightarrow> isKing (promote piece dest)"
  by (simp add: promote_def)

lemma applyToBoard_length: "applyToBoard b m = Inr b' \<Longrightarrow> length b' = length b"
  by (auto simp: applyToBoard_def bindE_eq_Inr dest!: setAt_length
      split: option.splits if_splits)

lemma allMoves_only_jumps:
  assumes "allMoves b p mjf = Inr pm" and "mjf \<noteq> None \<or> hasAnyJumps b p = Inr True"
  shows "list_all isJump pm"
proof (cases mjf)
  case (Some q)
  with assms(1) show ?thesis by (auto simp: allMoves_def bindE_eq_Inr list_all_iff)
next
  case None
  with assms have c: "collectE (movesOfSquare b p True) squares = Inr pm"
    by (auto simp: allMoves_def)
  show ?thesis
  proof (rule collectE_all [OF c])
    fix pos zs z
    assume "movesOfSquare b p True pos = Inr zs" "z \<in> set zs"
    then show "isJump z"
      by (auto simp: movesOfSquare_def bindE_eq_Inr split: if_splits)
  qed
qed

lemma jsIndex_mem: "jsIndex xs i = Some x \<Longrightarrow> x \<in> set xs"
  by (auto simp: jsIndex_def split: if_splits)

lemma scanStep_Inr:
  "scanStep b p d x st = Inr r \<longleftrightarrow>
     (\<exists>s. moveScore b p d x = Inr s \<and> r = (if num_less (snd st) s then (x, s) else st, False))"
  by (auto simp: scanStep_def bindE_eq_Inr)

lemma forOfE_Cons_Inr:
  "forOfE body (x # xs) s = Inr s' \<longleftrightarrow>
     (\<exists>r. body x s = Inr r \<and> (if snd r then s' = fst r else forOfE body xs (fst r) = Inr s'))"
  by (cases "body x s") auto

lemma scan_result_mem:
  "forOfE (scanStep b p d) xs st = Inr st' \<Longrightarrow> fst st' = fst st \<or> fst st' \<in> set xs"
proof (induction xs arbitrary: st)
  case Nil
  then show ?case by simp
next
  case (Cons x xs)
  from Cons.prems obtain r where r: "scanStep b p d x st = Inr r"
    and rest: "if snd r then st' = fst r else forOfE (scanStep b p d) xs (fst r) = Inr st'"
    unfolding forOfE_Cons_Inr by blast
  from r obtain s where "r = (if num_less (snd st) s then (x, s) else st, False)"
    unfolding scanStep_Inr by blast
  with rest have "forOfE (scanStep b p d) xs (if num_less (snd st) s then (x, s) else st) = Inr st'"
    by simp
  from Cons.IH [OF this] show ?case by (auto split: if_splits)
qed

lemma moveScore_ok:
  assumes "wfBoard b" and "generated b m"
  shows "\<exists>s. moveScore b p d m = Inr (Num s)"
proof -
  from simulateMove_ok [OF assms, of p] obtain res where
    res: "simulateMove b m p = Inr res" and w: "wfBoard (newBoard res)"
    and mj: "case nextMustJumpFrom res of None \<Rightarrow> True | Some q \<Rightarrow> row q < 8"
    by blast
  from minimax_ok [OF w mj] res show ?thesis by (simp add: moveScore_def Let_def)
qed

lemma num_less_simps [simp]:
  "num_less NegInf (Num a)" "num_less (Num a) (Num c) \<longleftrightarrow> a < c"
  by (auto simp: num_less_def)

lemma scanInv_step:
  assumes "scanInv b p d seen st" and "moveScore b p d x = Inr (Num s)"
  shows "scanInv b p d (seen @ [x]) (if num_less (snd st) (Num s) then (x, Num s) else st)"
  using assms unfolding scanInv_def by (auto simp: not_less)

lemma scan_max:
  assumes "\<And>m. m \<in> set xs \<Longrightarrow> \<exists>s. moveScore b p d m = Inr (Num s)"
    and "scanInv b p d seen st"
  shows "\<exists>st'. forOfE (scanStep b p d) xs st = Inr st' \<and> scanInv b p d (seen @ xs) st'"
  using assms
proof (induction xs arbitrary: st seen)
  case Nil
  then show ?case by simp
next
  case (Cons x xs)
  from Cons.prems(1) [of x] obtain s where s: "moveScore b p d x = Inr (Num s)" by auto
  let ?st = "if num_less (snd st) (Num s) then (x, Num s) else st"
  have step: "scanStep b p d x st = Inr (?st, False)"
    using s by (simp add: scanStep_def)
  have "scanInv b p d (seen @ [x]) ?st"
    using scanInv_step [OF Cons.prems(2) s] .
  from Cons.IH [OF _ this] Cons.prems(1) obtain st' where
    "forOfE (scanStep b p d) xs ?st = Inr st'" "scanInv b p d ((seen @ [x]) @ xs) st'"
    by auto
  with step show ?case by simp
qed

section \<open>The store program and the model\<close>

lemma cellRefs_simps [simp]:
  "cellRefs [] = []" "cellRefs (None # cs) = cellRefs cs" "cellRefs (Some r # cs) = r # cellRefs cs"
  by (simp_all add: cellRefs_def)

lemma cellsOk_simps [simp]:
  "cellsOk n []" "cellsOk n (None # cs) = cellsOk n cs"
  "cellsOk n (Some r # cs) = (r < n \<and> cellsOk n cs)"
  by (simp_all add: cellsOk_def)

lemma cellsOk_mono: "cellsOk n cs \<Longrightarrow> n \<le> n' \<Longrightarrow> cellsOk n' cs"
  by (auto simp: cellsOk_def list_all_iff split: option.splits)

lemma cellsOk_refs: "cellsOk n cs \<longleftrightarrow> (\<forall>r\<in>set (cellRefs cs). r < n)"
  by (induction cs) (auto split: option.splits simp: cellsOk_def cellRefs_def)

lemma deref_cells_append:
  "cellsOk (length ps) cs \<Longrightarrow>
   map (map_option (\<lambda>pr. (ps @ extra) ! pr)) cs = map (map_option (\<lambda>pr. ps ! pr)) cs"
  by (induction cs) (auto simp: nth_append split: option.splits simp: cellsOk_def)

lemma cloneCells_spec:
  assumes "cloneCells ps cs = (ps', cs')" and "cellsOk (length ps) cs"
  shows "(\<exists>new. ps' = ps @ new)
         \<and> length cs' = length cs
         \<and> map (map_option (\<lambda>pr. ps' ! pr)) cs' = map (map_option (\<lambda>pr. ps ! pr)) cs
         \<and> cellRefs cs' = [length ps ..< length ps']"
  using assms
proof (induction ps cs arbitrary: ps' cs' rule: cloneCells.induct)
  case (1 ps)
  then show ?case by simp
next
  case (2 ps cs)
  from "2.prems"(1) obtain cs2 where r: "cloneCells ps cs = (ps', cs2)" and c: "cs' = None # cs2"
    by (auto split: prod.splits)
  from "2.IH" [OF r] "2.prems"(2) c show ?case by simp
next
  case (3 ps pr cs)
  from "3.prems"(1) obtain cs2 where r: "cloneCells (ps @ [ps ! pr]) cs = (ps', cs2)"
    and c: "cs' = Some (length ps) # cs2"
    by (auto split: prod.splits)
  from "3.prems"(2) have pr: "pr < length ps" and ok: "cellsOk (length ps) cs" by simp_all
  from ok have ok': "cellsOk (length (ps @ [ps ! pr])) cs" by (rule cellsOk_mono) simp
  from "3.IH" [OF r ok'] obtain new where
    new: "ps' = (ps @ [ps ! pr]) @ new" and len: "length cs2 = length cs"
    and d: "map (map_option (\<lambda>r. ps' ! r)) cs2 = map (map_option (\<lambda>r. (ps @ [ps ! pr]) ! r)) cs"
    and refs: "cellRefs cs2 = [length (ps @ [ps ! pr]) ..< length ps']"
    by blast
  have d': "map (map_option (\<lambda>r. (ps @ [ps ! pr]) ! r)) cs = map (map_option (\<lambda>r. ps ! r)) cs"
    using ok by (rule deref_cells_append)
  have hd: "ps' ! length ps = ps ! pr" using new by (simp add: nth_append)
  have "length ps < length ps'" using new by simp
  then have upt: "[length ps ..< length ps'] = length ps # [Suc (length ps) ..< length ps']"
    by (rule upt_conv_Cons)
  from new have "\<exists>new. ps' = ps @ new" by simp
  with c len d d' hd refs upt show ?case by simp
qed

lemma cellsOf_Nil [simp]: "cellsOf h [] = []"
  by (simp add: cellsOf_def)

lemma absBoard_extend:
  assumes "heapOk h br" and "rowArr h' = rowArr h @ extra"
    and "\<And>r. r < length (pieceObj h) \<Longrightarrow> pieceObj h' ! r = pieceObj h ! r"
  shows "absBoard h' br = absBoard h br"
proof -
  have "map (map_option (\<lambda>pr. pieceObj h' ! pr)) (rowArr h' ! rr)
        = map (map_option (\<lambda>pr. pieceObj h ! pr)) (rowArr h ! rr)"
    if "rr \<in> set br" for rr
  proof -
    from that assms(1) have rr: "rr < length (rowArr h)"
      and ok: "cellsOk (length (pieceObj h)) (rowArr h ! rr)"
      by (auto simp: heapOk_def list_all_iff)
    from rr assms(2) have "rowArr h' ! rr = rowArr h ! rr" by (simp add: nth_append)
    moreover have "map (map_option (\<lambda>pr. pieceObj h' ! pr)) cs
                   = map (map_option (\<lambda>pr. pieceObj h ! pr)) cs"
      if "cellsOk (length (pieceObj h)) cs" for cs
      using that assms(3) by (auto simp: cellsOk_def list_all_iff split: option.splits
          intro!: map_cong option.map_cong)
    ultimately show ?thesis using ok by simp
  qed
  then show ?thesis by (simp add: absBoard_def derefBoard_def cellsOf_def)
qed

lemma heapOk_extend:
  assumes "heapOk h br" and "rowArr h' = rowArr h @ extra"
    and "length (pieceObj h) \<le> length (pieceObj h')"
  shows "heapOk h' br"
  using assms by (auto simp: heapOk_def list_all_iff nth_append intro: cellsOk_mono)

lemma upt_join: "i \<le> j \<Longrightarrow> j \<le> k \<Longrightarrow> [i ..< j] @ [j ..< k] = [i ..< k]"
  using upt_add_eq_append [of i j "k - j"] by simp

lemma cloneRows_spec:
  assumes "cloneRows h rs = (h', rs')" and "heapOk h rs"
  shows "\<exists>rb newp. rowArr h' = rowArr h @ rb \<and> pieceObj h' = pieceObj h @ newp
           \<and> rs' = [length (rowArr h) ..< length (rowArr h')]
           \<and> length rb = length rs
           \<and> derefBoard (pieceObj h') rb = absBoard h rs
           \<and> concat (map cellRefs rb) = [length (pieceObj h) ..< length (pieceObj h')]"
  using assms
proof (induction rs arbitrary: h h' rs')
  case Nil
  then show ?case by (simp add: absBoard_def derefBoard_def)
next
  case (Cons rr rest)
  obtain ps cells where cc: "cloneCells (pieceObj h) (rowArr h ! rr) = (ps, cells)"
    by (cases "cloneCells (pieceObj h) (rowArr h ! rr)")
  define h1 where "h1 = \<lparr>rowArr = rowArr h @ [cells], pieceObj = ps\<rparr>"
  obtain h2 rs2 where cr: "cloneRows h1 rest = (h2, rs2)" by (cases "cloneRows h1 rest")
  from Cons.prems(1) cc cr have h': "h' = h2" and rs': "rs' = length (rowArr h) # rs2"
    by (simp_all add: h1_def)
  from Cons.prems(2) have rr: "rr < length (rowArr h)"
    and okr: "cellsOk (length (pieceObj h)) (rowArr h ! rr)" and okrest: "heapOk h rest"
    by (simp_all add: heapOk_def)
  from cloneCells_spec [OF cc okr] obtain new1 where
    ps: "ps = pieceObj h @ new1" and lc: "length cells = length (rowArr h ! rr)"
    and dc: "map (map_option (\<lambda>pr. ps ! pr)) cells
             = map (map_option (\<lambda>pr. pieceObj h ! pr)) (rowArr h ! rr)"
    and rc: "cellRefs cells = [length (pieceObj h) ..< length ps]"
    by blast
  have ok1: "heapOk h1 rest"
    by (rule heapOk_extend [OF okrest]) (simp_all add: h1_def ps)
  from Cons.IH [OF cr ok1] obtain rb2 newp2 where
    ra: "rowArr h2 = rowArr h1 @ rb2" and pa: "pieceObj h2 = pieceObj h1 @ newp2"
    and rs2: "rs2 = [length (rowArr h1) ..< length (rowArr h2)]"
    and lr: "length rb2 = length rest"
    and d2: "derefBoard (pieceObj h2) rb2 = absBoard h1 rest"
    and c2: "concat (map cellRefs rb2) = [length (pieceObj h1) ..< length (pieceObj h2)]"
    by blast
  have a1: "absBoard h1 rest = absBoard h rest"
    by (rule absBoard_extend [OF okrest]) (simp_all add: h1_def ps nth_append)
  have okc: "cellsOk (length ps) cells"
    unfolding cellsOk_refs rc by simp
  have dhead: "map (map_option (\<lambda>pr. pieceObj h2 ! pr)) cells
               = map (map_option (\<lambda>pr. pieceObj h ! pr)) (rowArr h ! rr)"
    using deref_cells_append [OF okc, of newp2] dc pa by (simp add: h1_def)
  have "rowArr h2 = rowArr h @ (cells # rb2)" using ra by (simp add: h1_def)
  moreover have "pieceObj h2 = pieceObj h @ (new1 @ newp2)" using pa ps by (simp add: h1_def)
  moreover have "rs' = [length (rowArr h) ..< length (rowArr h2)]"
  proof -
    have l1: "length (rowArr h1) = Suc (length (rowArr h))" by (simp add: h1_def)
    have lt: "length (rowArr h) < length (rowArr h2)" using ra l1 by simp
    show ?thesis by (simp only: rs' rs2 l1 upt_conv_Cons [OF lt])
  qed
  moreover have "length (cells # rb2) = length (rr # rest)" using lr by simp
  moreover have "derefBoard (pieceObj h2) (cells # rb2) = absBoard h (rr # rest)"
    using d2 a1 dhead by (simp add: derefBoard_def absBoard_def cellsOf_def)
  moreover have "concat (map cellRefs (cells # rb2))
                 = [length (pieceObj h) ..< length (pieceObj h2)]"
    using rc c2 pa ps by (simp add: h1_def upt_join)
  ultimately show ?case unfolding h' by blast
qed

lemma map_nth_fresh: "map (\<lambda>i. (xs @ ys) ! i) [length xs ..< length xs + length ys] = ys"
  by (rule nth_equalityI) (simp_all add: nth_append)

lemma readH_fresh:
  assumes "rowArr h = old @ rb"
  shows "readH h [length old ..< length old + length rb] pos = getAt rb pos"
proof -
  have "cellsOf h [length old ..< length old + length rb] = rb"
    unfolding cellsOf_def assms by (rule map_nth_fresh)
  then show ?thesis by (simp add: readH_def)
qed

lemma writeH_fresh:
  assumes "rowArr h = old @ rb"
  shows "writeH h [length old ..< length old + length rb] pos v
         = (case setAt rb pos v of Inl e \<Rightarrow> Inl e | Inr rb' \<Rightarrow> Inr (h\<lparr>rowArr := old @ rb'\<rparr>))"
proof (cases "row pos < length rb")
  case False
  then show ?thesis by (simp add: writeH_def setAt_def)
next
  case True
  then have "(old @ rb)[length old + row pos := x] = old @ rb[row pos := x]" for x
    by (simp add: list_update_append)
  with True show ?thesis
    by (simp add: writeH_def setAt_def assms Let_def nth_append)
qed

lemma applyToBoard_moveCells:
  "applyToBoard b m =
     bindE (getAt b (from_pos m)) (\<lambda>cell.
     bindE (moveCells b m cell) (\<lambda>b3.
       case cell of
         None \<Rightarrow> Inl TypeError
       | Some piece \<Rightarrow>
           if to_pos m = from_pos m \<or> (isJump m \<and> jumpedPiece m = Some (to_pos m))
           then Inr b3
           else setAt b3 (to_pos m) (Some (promote piece (to_pos m)))))"
proof (cases "getAt b (from_pos m)")
  case (Inl e)
  then show ?thesis by (simp add: applyToBoard_def)
next
  case (Inr cell)
  show ?thesis
  proof (cases "setAt b (to_pos m) cell")
    case Inl
    with Inr show ?thesis by (simp add: applyToBoard_def moveCells_def)
  next
    case b1: (Inr b1)
    show ?thesis
    proof (cases "setAt b1 (from_pos m) None")
      case Inl
      with Inr b1 show ?thesis by (simp add: applyToBoard_def moveCells_def)
    next
      case b2: (Inr b2)
      with Inr b1 show ?thesis by (simp add: applyToBoard_def moveCells_def)
    qed
  qed
qed

lemma error_is_TypeError [simp]: "(e :: error) = TypeError"
  by (cases e) simp

lemma writeH_fresh_Inr:
  assumes "rowArr h = old @ rb" and "setAt rb pos v = Inr rb'"
  shows "writeH h [length old ..< length old + length rb] pos v = Inr (h\<lparr>rowArr := old @ rb'\<rparr>)"
  using writeH_fresh [OF assms(1), of pos v] assms(2) by simp

lemma writeH_fresh_Inl:
  assumes "rowArr h = old @ rb" and "setAt rb pos v = Inl e"
  shows "writeH h [length old ..< length old + length rb] pos v = Inl TypeError"
  using writeH_fresh [OF assms(1), of pos v] assms(2) by simp

text \<open>
  What the statements after the copy do, when the copy is the fresh board \<open>rb0\<close>: they
  either succeed, leaving the cells \<open>moveCells\<close> computes and the moved piece object
  promoted, or throw, leaving some cells of the fresh board changed and nothing else.
\<close>

lemma moveOnH_fresh:
  assumes h0: "rowArr h0 = old @ rb0" and nb: "nb = [length old ..< length old + length rb0]"
  shows "case getAt rb0 (from_pos m) of
           Inl e \<Rightarrow> moveOnH h0 nb m = (h0, Inl TypeError)
         | Inr piece \<Rightarrow>
            (case moveCells rb0 m piece of
               Inl e \<Rightarrow> (\<exists>rbk. moveOnH h0 nb m = (h0\<lparr>rowArr := old @ rbk\<rparr>, Inl TypeError))
             | Inr rb3 \<Rightarrow>
                (case piece of
                   None \<Rightarrow> moveOnH h0 nb m = (h0\<lparr>rowArr := old @ rb3\<rparr>, Inl TypeError)
                 | Some pr \<Rightarrow>
                     moveOnH h0 nb m =
                       (h0\<lparr>rowArr := old @ rb3,
                          pieceObj := (pieceObj h0)[pr := promote (pieceObj h0 ! pr) (to_pos m)]\<rparr>,
                        Inr nb)))"
proof (cases "getAt rb0 (from_pos m)")
  case (Inl e)
  then show ?thesis by (simp add: moveOnH_def readH_fresh [OF h0] nb)
next
  case (Inr piece)
  then have rd: "readH h0 nb (from_pos m) = Inr piece" by (simp add: readH_fresh [OF h0] nb)
  have self: "h0 = h0\<lparr>rowArr := old @ rb0\<rparr>" using h0 by simp
  show ?thesis
  proof (cases "setAt rb0 (to_pos m) piece")
    case (Inl e)
    then have "moveCells rb0 m piece = Inl TypeError" by (simp add: moveCells_def)
    moreover have "moveOnH h0 nb m = (h0, Inl TypeError)"
      using rd writeH_fresh_Inl [OF h0 Inl] by (simp add: moveOnH_def nb)
    ultimately show ?thesis using Inr self by (auto intro: exI [of _ rb0])
  next
    case b1: (Inr rb1)
    define h1 where "h1 = h0\<lparr>rowArr := old @ rb1\<rparr>"
    have w1: "writeH h0 nb (to_pos m) piece = Inr h1"
      using writeH_fresh_Inr [OF h0 b1] by (simp add: nb h1_def)
    have r1: "rowArr h1 = old @ rb1" by (simp add: h1_def)
    have l1: "length rb1 = length rb0" using setAt_length [OF b1] .
    show ?thesis
    proof (cases "setAt rb1 (from_pos m) None")
      case (Inl e)
      with b1 have "moveCells rb0 m piece = Inl TypeError" by (simp add: moveCells_def)
      moreover have "moveOnH h0 nb m = (h1, Inl TypeError)"
        using rd w1 writeH_fresh_Inl [OF r1 Inl] by (simp add: moveOnH_def nb l1)
      ultimately show ?thesis using Inr by (auto simp: h1_def)
    next
      case b2: (Inr rb2)
      define h2 where "h2 = h0\<lparr>rowArr := old @ rb2\<rparr>"
      have w2: "writeH h1 nb (from_pos m) None = Inr h2"
        using writeH_fresh_Inr [OF r1 b2] by (simp add: nb l1 h1_def h2_def)
      have r2: "rowArr h2 = old @ rb2" by (simp add: h2_def)
      have l2: "length rb2 = length rb0" using setAt_length [OF b2] l1 by simp
      let ?jw = "if isJump m
                 then (case jumpedPiece m of Some j \<Rightarrow> setAt rb2 j None | None \<Rightarrow> Inr rb2)
                 else Inr rb2"
      have mc: "moveCells rb0 m piece = ?jw" using b1 b2 by (simp add: moveCells_def)
      let ?jh = "if isJump m
                 then (case jumpedPiece m of Some j \<Rightarrow> writeH h2 nb j None | None \<Rightarrow> Inr h2)
                 else Inr h2"
      have unf: "moveOnH h0 nb m =
          (case ?jh of Inl e \<Rightarrow> (h2, Inl e)
           | Inr h3 \<Rightarrow> (case piece of None \<Rightarrow> (h3, Inl TypeError)
              | Some pr \<Rightarrow> (h3\<lparr>pieceObj := (pieceObj h3)[pr := promote (pieceObj h3 ! pr) (to_pos m)]\<rparr>,
                            Inr nb)))"
        using rd w1 w2 by (simp add: moveOnH_def)
      show ?thesis
      proof (cases ?jw)
        case (Inl e)
        then obtain j where j: "isJump m" "jumpedPiece m = Some j" "setAt rb2 j None = Inl e"
          by (auto split: if_splits option.splits)
        have "?jh = Inl TypeError"
          using j writeH_fresh_Inl [OF r2 j(3)] by (simp add: nb l2)
        with unf have "moveOnH h0 nb m = (h2, Inl TypeError)" by simp
        with Inl mc Inr show ?thesis by (auto simp: h2_def)
      next
        case b3: (Inr rb3)
        have "?jh = Inr (h0\<lparr>rowArr := old @ rb3\<rparr>)"
        proof (cases "isJump m \<and> jumpedPiece m \<noteq> None")
          case False
          with b3 have "rb3 = rb2" by (auto split: if_splits option.splits)
          with False show ?thesis by (auto simp: h2_def split: option.splits)
        next
          case True
          then obtain j where j: "isJump m" "jumpedPiece m = Some j" by auto
          with b3 have "setAt rb2 j None = Inr rb3" by simp
          from writeH_fresh_Inr [OF r2 this] j show ?thesis by (simp add: nb l2 h2_def)
        qed
        with unf have "moveOnH h0 nb m =
          (case piece of None \<Rightarrow> (h0\<lparr>rowArr := old @ rb3\<rparr>, Inl TypeError)
              | Some pr \<Rightarrow> (h0\<lparr>rowArr := old @ rb3,
                   pieceObj := (pieceObj h0)[pr := promote (pieceObj h0 ! pr) (to_pos m)]\<rparr>,
                            Inr nb))"
          by (simp split: option.splits)
        with b3 mc Inr show ?thesis by (simp split: option.splits)
      qed
    qed
  qed
qed

lemma jsStore_map:
  "map (map_option f) (jsStore rw c v) = jsStore (map (map_option f) rw) c (map_option f v)"
  by (simp add: jsStore_def map_update)

lemma setAt_deref:
  "setAt (derefBoard ps rb) pos (map_option (\<lambda>pr. ps ! pr) v)
   = (case setAt rb pos v of Inl e \<Rightarrow> Inl e | Inr rb' \<Rightarrow> Inr (derefBoard ps rb'))"
  by (simp add: setAt_def derefBoard_def map_update jsStore_map)

lemma getAt_deref:
  "getAt (derefBoard ps rb) pos
   = (case getAt rb pos of Inl e \<Rightarrow> Inl e | Inr c \<Rightarrow> Inr (map_option (\<lambda>pr. ps ! pr) c))"
  by (simp add: getAt_def getCell_def derefBoard_def Let_def)

lemma moveCells_deref:
  "moveCells (derefBoard ps rb) m (map_option (\<lambda>pr. ps ! pr) c)
   = (case moveCells rb m c of Inl e \<Rightarrow> Inl e | Inr rb' \<Rightarrow> Inr (derefBoard ps rb'))"
proof (cases "setAt rb (to_pos m) c")
  case (Inl e)
  with setAt_deref [of ps rb "to_pos m" c] show ?thesis by (simp add: moveCells_def)
next
  case b1: (Inr rb1)
  with setAt_deref [of ps rb "to_pos m" c]
  have d1: "setAt (derefBoard ps rb) (to_pos m) (map_option (\<lambda>pr. ps ! pr) c)
            = Inr (derefBoard ps rb1)" by simp
  show ?thesis
  proof (cases "setAt rb1 (from_pos m) None")
    case (Inl e)
    with setAt_deref [of ps rb1 "from_pos m" None] b1 d1 show ?thesis
      by (simp add: moveCells_def)
  next
    case b2: (Inr rb2)
    with setAt_deref [of ps rb1 "from_pos m" None]
    have d2: "setAt (derefBoard ps rb1) (from_pos m) None = Inr (derefBoard ps rb2)" by simp
    show ?thesis
    proof (cases "jumpedPiece m")
      case None
      with b1 b2 d1 d2 show ?thesis by (simp add: moveCells_def)
    next
      case (Some j)
      with b1 b2 d1 d2 setAt_deref [of ps rb2 j None] show ?thesis
        by (simp add: moveCells_def)
    qed
  qed
qed

lemma moveCells_getAt:
  assumes "moveCells b m c = Inr b3"
  shows "getAt b3 q =
           (if q = from_pos m \<or> (isJump m \<and> jumpedPiece m = Some q) then Inr None
            else if q = to_pos m then Inr c
            else getAt b q)"
proof -
  from assms obtain b1 b2 where
    b1: "setAt b (to_pos m) c = Inr b1"
    and b2: "setAt b1 (from_pos m) None = Inr b2"
    and b3: "(if isJump m then (case jumpedPiece m of Some j \<Rightarrow> setAt b2 j None | None \<Rightarrow> Inr b2)
      else Inr b2) = Inr b3"
    by (auto simp: moveCells_def bindE_eq_Inr)
  have g1: "getAt b1 q = (if q = to_pos m then Inr c else getAt b q)"
    using setAt_get_same [OF b1] setAt_get_other [OF b1, of q] by simp
  have g2: "getAt b2 q = (if q = from_pos m then Inr None else getAt b1 q)"
    using setAt_get_same [OF b2] setAt_get_other [OF b2, of q] by simp
  have g3: "getAt b3 q = (if isJump m \<and> jumpedPiece m = Some q then Inr None else getAt b2 q)"
  proof (cases "isJump m")
    case False
    with b3 show ?thesis by simp
  next
    case True
    show ?thesis
    proof (cases "jumpedPiece m")
      case None
      with True b3 show ?thesis by simp
    next
      case (Some j)
      with True b3 have s: "setAt b2 j None = Inr b3" by simp
      from setAt_get_same [OF s] setAt_get_other [OF s, of q] True Some show ?thesis by auto
    qed
  qed
  from g1 g2 g3 show ?thesis by auto
qed

lemma moveCells_shape:
  assumes "moveCells b m c = Inr b3"
  shows "length b3 = length b"
  using assms
  by (auto simp: moveCells_def bindE_eq_Inr dest!: setAt_length split: if_splits option.splits)

lemma getAt_nth:
  "i < length b \<Longrightarrow> j < length (b ! i) \<Longrightarrow> getAt b \<lparr>row = i, col = j\<rparr> = Inr (b ! i ! j)"
  by (simp add: getAt_def getCell_def)

lemma getAt_Some_nth:
  "getAt b q = Inr (Some x) \<Longrightarrow> row q < length b \<and> col q < length (b ! row q) \<and> b ! row q ! col q = Some x"
  by (auto simp: getAt_def getCell_def Let_def split: if_splits)

text \<open>An address that a fresh board holds, it holds on one square only.\<close>

lemma cellRefs_mem: "r \<in> set (cellRefs cs) \<longleftrightarrow> Some r \<in> set cs"
  by (induction cs) (auto simp: cellRefs_def split: option.splits)

lemma cell_in_refs: "j < length cs \<Longrightarrow> cs ! j = Some r \<Longrightarrow> r \<in> set (cellRefs cs)"
  unfolding cellRefs_mem by (metis nth_mem)

lemma cells_unique:
  "distinct (cellRefs cs) \<Longrightarrow> i < length cs \<Longrightarrow> j < length cs \<Longrightarrow> cs ! i = Some r
   \<Longrightarrow> cs ! j = Some r \<Longrightarrow> i = j"
proof (induction cs arbitrary: i j)
  case Nil
  then show ?case by simp
next
  case (Cons c cs)
  show ?case
  proof (cases i)
    case i0: 0
    show ?thesis
    proof (cases j)
      case 0
      with i0 show ?thesis by simp
    next
      case (Suc j')
      with Cons.prems i0 have "c = Some r" "r \<in> set (cellRefs cs)"
        by (auto intro: cell_in_refs)
      with Cons.prems(1) show ?thesis by simp
    qed
  next
    case (Suc i')
    show ?thesis
    proof (cases j)
      case 0
      with Cons.prems Suc have "c = Some r" "r \<in> set (cellRefs cs)"
        by (auto intro: cell_in_refs)
      with Cons.prems(1) show ?thesis by simp
    next
      case j: (Suc j')
      from Cons.prems(1) have "distinct (cellRefs cs)" by (cases c) simp_all
      from Cons.IH [OF this, of i' j'] Cons.prems Suc j show ?thesis by simp
    qed
  qed
qed

lemma rows_unique:
  "distinct (concat (map cellRefs rb)) \<Longrightarrow> i < length rb \<Longrightarrow> i' < length rb
   \<Longrightarrow> r \<in> set (cellRefs (rb ! i)) \<Longrightarrow> r \<in> set (cellRefs (rb ! i')) \<Longrightarrow> i = i'"
proof (induction rb arbitrary: i i')
  case Nil
  then show ?case by simp
next
  case (Cons rw rb)
  have rest: "k < length rb \<Longrightarrow> r \<in> set (cellRefs (rb ! k)) \<Longrightarrow> r \<in> set (concat (map cellRefs rb))" for k
    by auto
  show ?case
  proof (cases i)
    case i0: 0
    show ?thesis
    proof (cases i')
      case 0
      with i0 show ?thesis by simp
    next
      case (Suc k)
      with Cons.prems i0 rest [of k] show ?thesis by auto
    qed
  next
    case (Suc k)
    show ?thesis
    proof (cases i')
      case 0
      with Cons.prems Suc rest [of k] show ?thesis by auto
    next
      case k': (Suc k')
      from Cons.prems(1) have "distinct (concat (map cellRefs rb))" by simp
      from Cons.IH [OF this, of k k'] Cons.prems Suc k' show ?thesis by simp
    qed
  qed
qed

lemma board_refs_unique:
  assumes "distinct (concat (map cellRefs rb))"
    and "getAt rb q = Inr (Some r)" and "getAt rb q' = Inr (Some r)"
  shows "q = q'"
proof -
  from getAt_Some_nth [OF assms(2)] have q: "row q < length rb" "col q < length (rb ! row q)"
    "rb ! row q ! col q = Some r" by simp_all
  from getAt_Some_nth [OF assms(3)] have q': "row q' < length rb" "col q' < length (rb ! row q')"
    "rb ! row q' ! col q' = Some r" by simp_all
  have m: "r \<in> set (cellRefs (rb ! row q))" "r \<in> set (cellRefs (rb ! row q'))"
    using q q' by (auto intro: cell_in_refs)
  from rows_unique [OF assms(1) q(1) q'(1) m] have rw: "row q = row q'" .
  have "distinct (cellRefs (rb ! row q))"
    using assms(1) q(1) by (auto simp: distinct_concat_iff)
  from cells_unique [OF this q(2) _ q(3)] q' rw have "col q = col q'" by simp
  with rw show ?thesis by simp
qed

lemma board_refs_mem:
  "getAt rb q = Inr (Some r) \<Longrightarrow> r \<in> set (concat (map cellRefs rb))"
  by (drule getAt_Some_nth) (auto intro!: bexI [of _ "rb ! row q"] cell_in_refs)

lemma board_eqI:
  assumes "map length b = map length b'" and "\<And>q. getAt b q = getAt b' q"
  shows "b = b'"
proof (rule nth_equalityI)
  from assms(1) show len: "length b = length b'" by (rule map_eq_imp_length_eq)
  fix i assume i: "i < length b"
  with assms(1) len have li: "length (b ! i) = length (b' ! i)"
    by (metis nth_map)
  show "b ! i = b' ! i"
  proof (rule nth_equalityI [OF li])
    fix j assume j: "j < length (b ! i)"
    from assms(2) [of "\<lparr>row = i, col = j\<rparr>"] i j li len show "b ! i ! j = b' ! i ! j"
      by (simp add: getAt_nth)
  qed
qed

lemma derefBoard_shape [simp]: "map length (derefBoard ps rb) = map length rb"
  by (simp add: derefBoard_def)

lemma setAt_shape:
  assumes "getAt b pos = Inr (Some y)"
  shows "\<exists>b'. setAt b pos v = Inr b' \<and> map length b' = map length b"
proof -
  from getAt_Some_nth [OF assms] have r: "row pos < length b" and c: "col pos < length (b ! row pos)"
    by simp_all
  have "(map length b)[row pos := length (b ! row pos)] = map length b"
    using r by (metis list_update_id nth_map)
  with r c show ?thesis by (simp add: setAt_def jsStore_def map_update)
qed

text \<open>
  Promoting the piece object at address \<open>pr\<close> changes the board exactly on the squares
  that hold \<open>pr\<close>: the landing square, unless a later store emptied it.
\<close>

lemma promote_deref:
  assumes holds: "\<And>q. getAt rb3 q = Inr (Some pr) \<longleftrightarrow> (q = dest \<and> \<not> gone)"
    and pr: "pr < length ps"
  shows "(if gone then Inr (derefBoard ps rb3) else setAt (derefBoard ps rb3) dest (Some x))
         = Inr (derefBoard (ps[pr := x]) rb3)"
proof -
  have cell: "map_option (\<lambda>r. ps[pr := x] ! r) c
              = (if c = Some pr then Some x else map_option (\<lambda>r. ps ! r) c)" for c
    using pr by (cases c) (auto simp: nth_list_update)
  have at: "getAt (derefBoard (ps[pr := x]) rb3) q
            = (if q = dest \<and> \<not> gone then Inr (Some x) else getAt (derefBoard ps rb3) q)" for q
  proof (cases "getAt rb3 q")
    case (Inl e)
    with holds [of q] show ?thesis by (auto simp: getAt_deref)
  next
    case (Inr c)
    with holds [of q] show ?thesis by (auto simp: getAt_deref cell)
  qed
  show ?thesis
  proof (cases gone)
    case True
    have "derefBoard (ps[pr := x]) rb3 = derefBoard ps rb3"
      by (rule board_eqI) (simp_all add: at True)
    with True show ?thesis by simp
  next
    case False
    with holds [of dest] have "getAt rb3 dest = Inr (Some pr)" by simp
    then have "getAt (derefBoard ps rb3) dest = Inr (Some (ps ! pr))" by (simp add: getAt_deref)
    from setAt_shape [OF this, of "Some x"] obtain b4 where
      b4: "setAt (derefBoard ps rb3) dest (Some x) = Inr b4"
      and sh: "map length b4 = map length (derefBoard ps rb3)" by blast
    have "b4 = derefBoard (ps[pr := x]) rb3"
    proof (rule board_eqI)
      show "map length b4 = map length (derefBoard (ps[pr := x]) rb3)" using sh by simp
      fix q
      show "getAt b4 q = getAt (derefBoard (ps[pr := x]) rb3) q"
        using setAt_get_same [OF b4] setAt_get_other [OF b4, of q] False by (simp add: at)
    qed
    with b4 False show ?thesis by simp
  qed
qed

lemma applyToBoardH_refines:
  assumes ok: "heapOk h board" and run: "applyToBoardH h board m = (h', r)"
  shows "absBoard h' board = absBoard h board
         \<and> take (length (rowArr h)) (rowArr h') = rowArr h
         \<and> take (length (pieceObj h)) (pieceObj h') = pieceObj h
         \<and> (case r of
               Inl e \<Rightarrow> applyToBoard (absBoard h board) m = Inl TypeError
             | Inr copy \<Rightarrow> applyToBoard (absBoard h board) m = Inr (absBoard h' copy))"
proof -
  obtain h0 nb where cl: "cloneRows h board = (h0, nb)" by (cases "cloneRows h board")
  from cloneRows_spec [OF cl ok] obtain rb0 newp where
    r0: "rowArr h0 = rowArr h @ rb0" and p0: "pieceObj h0 = pieceObj h @ newp"
    and nb: "nb = [length (rowArr h) ..< length (rowArr h0)]"
    and d0: "derefBoard (pieceObj h0) rb0 = absBoard h board"
    and refs: "concat (map cellRefs rb0) = [length (pieceObj h) ..< length (pieceObj h0)]"
    by blast
  let ?b = "absBoard h board" and ?ps = "pieceObj h0" and ?old = "rowArr h"
  have nb': "nb = [length ?old ..< length ?old + length rb0]" using nb r0 by simp
  have mv: "moveOnH h0 nb m = (h', r)" using run cl by (simp add: applyToBoardH_def cloneBoardH_def)
  have dist: "distinct (concat (map cellRefs rb0))" unfolding refs by simp
  note fresh = moveOnH_fresh [OF r0 nb', of m]
  have pure: "applyToBoard ?b m =
     bindE (getAt ?b (from_pos m)) (\<lambda>cell.
     bindE (moveCells ?b m cell) (\<lambda>b3.
       case cell of
         None \<Rightarrow> Inl TypeError
       | Some piece \<Rightarrow>
           if to_pos m = from_pos m \<or> (isJump m \<and> jumpedPiece m = Some (to_pos m))
           then Inr b3
           else setAt b3 (to_pos m) (Some (promote piece (to_pos m)))))"
    by (rule applyToBoard_moveCells)
  have gfrom: "getAt ?b (from_pos m)
               = (case getAt rb0 (from_pos m) of Inl e \<Rightarrow> Inl e
                  | Inr c \<Rightarrow> Inr (map_option (\<lambda>pr. ?ps ! pr) c))"
    unfolding d0 [symmetric] by (rule getAt_deref)
  have mcells: "moveCells ?b m (map_option (\<lambda>pr. ?ps ! pr) c)
                = (case moveCells rb0 m c of Inl e \<Rightarrow> Inl e
                   | Inr rb' \<Rightarrow> Inr (derefBoard ?ps rb'))" for c
    unfolding d0 [symmetric] by (rule moveCells_deref)
  have keep: "absBoard hk board = ?b \<and> take (length ?old) (rowArr hk) = ?old
              \<and> take (length (pieceObj h)) (pieceObj hk) = pieceObj h"
    if "rowArr hk = ?old @ rbk"
      and "\<And>r. r < length (pieceObj h) \<Longrightarrow> pieceObj hk ! r = pieceObj h ! r"
      and "length (pieceObj h) \<le> length (pieceObj hk)" for hk rbk
  proof -
    have "absBoard hk board = ?b" using ok that(1,2) by (rule absBoard_extend)
    moreover have "take (length (pieceObj h)) (pieceObj hk) = pieceObj h"
      using that(2,3) by (intro nth_equalityI) simp_all
    ultimately show ?thesis using that(1) by simp
  qed
  show ?thesis
  proof (cases "getAt rb0 (from_pos m)")
    case (Inl e)
    with fresh mv have "h' = h0" "r = Inl TypeError" by simp_all
    moreover have "applyToBoard ?b m = Inl TypeError" using pure gfrom Inl by simp
    ultimately show ?thesis using keep [of h0 rb0] r0 p0 by (simp add: nth_append)
  next
    case (Inr piece)
    show ?thesis
    proof (cases "moveCells rb0 m piece")
      case (Inl e)
      with fresh mv Inr obtain rbk where "h' = h0\<lparr>rowArr := ?old @ rbk\<rparr>" "r = Inl TypeError"
        by auto
      moreover have "applyToBoard ?b m = Inl TypeError"
        using pure gfrom Inr mcells [of piece] Inl by simp
      ultimately show ?thesis using keep [of h' rbk] p0 by (simp add: nth_append)
    next
      case rb3: (Inr rb3)
      show ?thesis
      proof (cases piece)
        case None
        with fresh mv Inr rb3 have "h' = h0\<lparr>rowArr := ?old @ rb3\<rparr>" "r = Inl TypeError"
          by simp_all
        moreover have "applyToBoard ?b m = Inl TypeError"
          using pure gfrom Inr mcells [of piece] rb3 None by simp
        ultimately show ?thesis using keep [of h' rb3] p0 by (simp add: nth_append)
      next
        case (Some pr)
        let ?x = "promote (?ps ! pr) (to_pos m)"
        let ?gone = "to_pos m = from_pos m \<or> (isJump m \<and> jumpedPiece m = Some (to_pos m))"
        from fresh mv Inr rb3 Some
        have h': "h' = h0\<lparr>rowArr := ?old @ rb3, pieceObj := ?ps[pr := ?x]\<rparr>"
          and r: "r = Inr nb" by simp_all
        from Inr Some have at_from: "getAt rb0 (from_pos m) = Inr (Some pr)" by simp
        from board_refs_mem [OF at_from] refs
        have pr_fresh: "length (pieceObj h) \<le> pr" and pr_lt: "pr < length ?ps" by simp_all
        have holds: "getAt rb3 q = Inr (Some pr) \<longleftrightarrow> (q = to_pos m \<and> \<not> ?gone)" for q
        proof -
          have "getAt rb0 q = Inr (Some pr) \<Longrightarrow> q = from_pos m"
            using board_refs_unique [OF dist _ at_from] by blast
          with moveCells_getAt [OF rb3 [unfolded Some], of q] show ?thesis by auto
        qed
        have l3: "length rb3 = length rb0" using moveCells_shape [OF rb3] .
        have "cellsOf h' nb = rb3"
          unfolding cellsOf_def h' nb' l3 [symmetric] by (simp add: map_nth_fresh)
        then have abs': "absBoard h' nb = derefBoard (?ps[pr := ?x]) rb3"
          by (simp add: absBoard_def h')
        have "applyToBoard ?b m
              = (if ?gone then Inr (derefBoard ?ps rb3)
                 else setAt (derefBoard ?ps rb3) (to_pos m) (Some ?x))"
          using pure gfrom Inr mcells [of piece] rb3 Some by simp
        also have "\<dots> = Inr (derefBoard (?ps[pr := ?x]) rb3)"
          using holds pr_lt by (rule promote_deref)
        finally have res: "applyToBoard ?b m = Inr (absBoard h' nb)" using abs' by simp
        have "absBoard h' board = ?b \<and> take (length ?old) (rowArr h') = ?old
              \<and> take (length (pieceObj h)) (pieceObj h') = pieceObj h"
        proof (rule keep [of h' rb3])
          show "rowArr h' = ?old @ rb3" by (simp add: h')
          show "length (pieceObj h) \<le> length (pieceObj h')" by (simp add: h' p0)
          fix k assume "k < length (pieceObj h)"
          with pr_fresh show "pieceObj h' ! k = pieceObj h ! k"
            by (simp add: h' p0 nth_append)
        qed
        with res r show ?thesis by simp
      qed
    qed
  qed
qed

section \<open>The game state of the page (App.tsx)\<close>

text \<open>
  The React state that \<^verbatim>\<open>executeMove\<close> reads and sets. A handler is a function from the
  state at the time of the call to the state after its setters have run, together with
  the exception it threw, if any. (The settings and the menu flag are not touched by it
  and are left out.)
\<close>

datatype Winner = Won Player | Draw

record GameState =
  board :: BoardState
  turn :: Player
  selectedPos :: "Position option"
  winner :: "Winner option"
  mustJumpFrom :: "Position option"

text \<open>
  The two scans of \<^verbatim>\<open>checkWinCondition\<close>. The \<^verbatim>\<open>break\<close> leaves the inner loop
  only: the later rows are still read.
\<close>

definition hasPiecesIn :: "BoardState \<Rightarrow> Player \<Rightarrow> error + bool" where
  "hasPiecesIn b p =
     forOfE (\<lambda>r hasPieces.
        bindE (anyE (\<lambda>c. bindE (getAt b \<lparr>row = r, col = c\<rparr>) (\<lambda>cell.
                       Inr (case cell of None \<Rightarrow> False | Some piece \<Rightarrow> player piece = p)))
                 [0..<BOARD_SIZE])
          (\<lambda>found. Inr (hasPieces \<or> found, False)))
       [0..<BOARD_SIZE] False"

definition hasMovesIn :: "BoardState \<Rightarrow> Player \<Rightarrow> error + bool" where
  "hasMovesIn b p =
     forOfE (\<lambda>r hasMoves.
        bindE (anyE (\<lambda>c. bindE (getAt b \<lparr>row = r, col = c\<rparr>) (\<lambda>cell.
                       if (case cell of None \<Rightarrow> False | Some piece \<Rightarrow> player piece = p)
                       then bindE (getValidMoves b \<lparr>row = r, col = c\<rparr> False) (\<lambda>moves.
                              Inr (moves \<noteq> []))
                       else Inr False))
                 [0..<BOARD_SIZE])
          (\<lambda>found. Inr (hasMoves \<or> found, False)))
       [0..<BOARD_SIZE] False"

definition checkWinCondition ::
  "GameState \<Rightarrow> BoardState \<Rightarrow> Player \<Rightarrow> GameState \<times> error option" where
  "checkWinCondition st currentBoard nextPlayer =
     (case hasPiecesIn currentBoard nextPlayer of
        Inl e \<Rightarrow> (st, Some e)
      | Inr hasPieces \<Rightarrow>
          if \<not> hasPieces
          then (st\<lparr>winner := Some (Won (otherPlayer nextPlayer))\<rparr>, None)
          else (case hasMovesIn currentBoard nextPlayer of
                  Inl e \<Rightarrow> (st, Some e)
                | Inr hasMoves \<Rightarrow>
                    if \<not> hasMoves
                    then (st\<lparr>winner := Some (Won (otherPlayer nextPlayer))\<rparr>, None)
                    else (st, None)))"

text \<open>
  \<^verbatim>\<open>executeMove\<close>: it builds the new board with the statements of \<^verbatim>\<open>simulateMove\<close>
  (\<open>applyToBoard\<close>), sets it, and either keeps the turn for the next jump of a chain
  or passes it and checks for a win.
\<close>

definition executeMove :: "GameState \<Rightarrow> Move \<Rightarrow> GameState \<times> error option" where
  "executeMove st move =
     (case applyToBoard (board st) move of
        Inl e \<Rightarrow> (st, Some e)
      | Inr newB \<Rightarrow>
          (let st1 = st\<lparr>board := newB\<rparr>
           in case (if isJump move
                    then bindE (getValidMoves newB (to_pos move) True) (\<lambda>moves.
                           Inr (filter isJump moves \<noteq> []))
                    else Inr False) of
                Inl e \<Rightarrow> (st1, Some e)
              | Inr continues \<Rightarrow>
                  if continues
                  then (st1\<lparr>mustJumpFrom := Some (to_pos move),
                            selectedPos := Some (to_pos move)\<rparr>, None)
                  else (let nextTurn = otherPlayer (turn st);
                            st2 = st1\<lparr>mustJumpFrom := None, selectedPos := None,
                                      turn := nextTurn\<rparr>
                        in checkWinCondition st2 newB nextTurn)))"

lemma checkWinCondition_board [simp]:
  "board (fst (checkWinCondition st b p)) = board st"
  by (simp add: checkWinCondition_def split: sum.splits)


lemma executeMove_board:
  "applyToBoard (board st) m = Inr nb \<Longrightarrow> board (fst (executeMove st m)) = nb"
  by (simp add: executeMove_def Let_def split: sum.splits)

lemma checkWinCondition_turn [simp]:
  "turn (fst (checkWinCondition st b p)) = turn st"
  by (simp add: checkWinCondition_def split: sum.splits)

text \<open>\<^verbatim>\<open>executeMove\<close> commits what \<^verbatim>\<open>simulateMove\<close> computes for the player to move.\<close>

lemma executeMove_agrees:
  assumes "simulateMove (board st) m (turn st) = Inr res"
  shows "board (fst (executeMove st m)) = newBoard res
         \<and> (if nextMustJumpFrom res = None
              then turn (fst (executeMove st m)) = nextTurn res
              else executeMove st m
                   = (st\<lparr>board := newBoard res, mustJumpFrom := nextMustJumpFrom res,
                          selectedPos := nextMustJumpFrom res\<rparr>, None))"
  using assms
proof (cases rule: simulateMove_cases)
  case (continues ms)
  then show ?thesis by (simp add: executeMove_def)
next
  case passes
  show ?thesis
  proof (cases "isJump m")
    case False
    with passes show ?thesis by (simp add: executeMove_def Let_def)
  next
    case True
    with passes(4) obtain ms where "getValidMoves (newBoard res) (to_pos m) True = Inr ms"
      "filter isJump ms = []" by blast
    with passes True show ?thesis by (simp add: executeMove_def Let_def)
  qed
qed

section \<open>The claims\<close>

text \<open>
  C1 (as amended). With \<open>mustJump\<close> set, \<open>getValidMoves\<close> returns the piece's jumps and
  nothing else when it has at least one jump; when it has none it returns the piece's
  simple moves, as it does without the flag.
\<close>

theorem getValidMoves_mustJump:
  assumes "getValidMoves b pos True = Inr ms" and "getValidMoves b pos False = Inr every"
  shows "if list_ex isJump every
         then ms = filter isJump every \<and> ms \<noteq> [] \<and> list_all isJump ms
         else ms = every \<and> list_all (\<lambda>m. \<not> isJump m) ms"
  using assms(1)
proof (cases rule: getValidMoves_cases)
  case empty
  with assms(2) show ?thesis by (simp add: getValidMoves_None)
next
  case (piece piece jumps slides)
  have J: "list_all isJump jumps"
    by (rule collectE_all [OF piece(2)]) (rule jumpStep_isJump)
  from assms(2) piece(2) obtain slides' where
    sl: "collectE (slideStep b pos) (directionsOf piece) = Inr slides'"
    and ev: "every = jumps @ slides'"
    by (auto simp: getValidMoves_Some [OF piece(1)] bindE_eq_Inr)
  have S: "list_all (\<lambda>m. \<not> isJump m) slides'"
    by (rule collectE_all [OF sl]) (rule slideStep_not_jump)
  have fj: "filter isJump jumps = jumps"
    using J by (simp add: list_all_iff)
  have fs: "filter isJump slides' = []"
    using S by (simp add: list_all_iff filter_empty_conv)
  show ?thesis
  proof (cases "jumps = []")
    case True
    with piece(4) sl have "ms = slides'" by simp
    with True ev S show ?thesis by (auto simp: list_ex_iff list_all_iff)
  next
    case False
    with piece(3) have "ms = jumps" by simp
    moreover from False J have "list_ex isJump every"
      unfolding ev by (cases jumps) (auto simp: list_ex_iff)
    ultimately show ?thesis using False J by (simp add: ev fj fs)
  qed
qed

theorem getValidMoves_mustJump_witness:
  "getValidMoves captureBoard (sq 5 2) True = Inr [jump (sq 5 2) (sq 4 3) (sq 3 4)]
   \<and> getValidMoves captureBoard (sq 5 2) False
       = Inr [jump (sq 5 2) (sq 4 3) (sq 3 4), slide (sq 5 2) (sq 4 1)]
   \<and> list_ex isJump [jump (sq 5 2) (sq 4 3) (sq 3 4), slide (sq 5 2) (sq 4 1)]
   \<and> [jump (sq 5 2) (sq 4 3) (sq 3 4)]
       = filter isJump [jump (sq 5 2) (sq 4 3) (sq 3 4), slide (sq 5 2) (sq 4 1)]"
proof -
  have a: "getValidMoves captureBoard (sq 5 2) True = Inr [jump (sq 5 2) (sq 4 3) (sq 3 4)]"
    by code_simp
  have b: "getValidMoves captureBoard (sq 5 2) False
       = Inr [jump (sq 5 2) (sq 4 3) (sq 3 4), slide (sq 5 2) (sq 4 1)]"
    by code_simp
  have c: "list_ex isJump [jump (sq 5 2) (sq 4 3) (sq 3 4), slide (sq 5 2) (sq 4 1)]"
    by code_simp
  from getValidMoves_mustJump [OF a b] a b c show ?thesis by simp
qed

theorem getValidMoves_mustJump_counterexample:
  "getValidMoves loneRedBoard (sq 5 2) True
     = Inr [slide (sq 5 2) (sq 4 1), slide (sq 5 2) (sq 4 3)]
   \<and> \<not> isJump (slide (sq 5 2) (sq 4 1))
   \<and> getValidMoves loneRedBoard (sq 5 2) False
     = Inr [slide (sq 5 2) (sq 4 1), slide (sq 5 2) (sq 4 3)]"
  by code_simp




text \<open>
  C3 (as amended). At every depth of at least 1, a node whose side to move has no move
  (no jump from \<open>mustJumpFrom\<close> when it is set, no move of any piece otherwise) is
  scored \<open>-10000\<close> when that side is the maximizing one and \<open>10000\<close> otherwise,
  whatever the remaining depth and the window are; and every value of the static
  evaluation is smaller than 10000 in magnitude. At depth 0 the search returns the
  static evaluation of the board for \<open>player\<close> without looking at the moves, on every
  board and whatever the window, the maximizing flag and the forced square are.
\<close>

theorem minimax_no_moves_sentinel:
  "(0 < depth \<and> allMoves b (if maximizing then p else otherPlayer p) mjf = Inr []
      \<longrightarrow> minimax b depth alpha beta maximizing p mjf
            = Inr (Num (if maximizing then - 10000 else 10000)))
   \<and> minimax b 0 alpha beta maximizing p mjf
       = (case evaluateBoard b p of Inl e \<Rightarrow> Inl e | Inr v \<Rightarrow> Inr (Num v))
   \<and> (case evaluateBoard b' q of Inl e \<Rightarrow> True | Inr v \<Rightarrow> \<bar>v\<bar> < 10000)"
proof (intro conjI impI)
  assume "0 < depth \<and> allMoves b (if maximizing then p else otherPlayer p) mjf = Inr []"
  then show "minimax b depth alpha beta maximizing p mjf
               = Inr (Num (if maximizing then - 10000 else 10000))"
    by (simp add: minimax.simps)
next
  show "minimax b 0 alpha beta maximizing p mjf
          = (case evaluateBoard b p of Inl e \<Rightarrow> Inl e | Inr v \<Rightarrow> Inr (Num v))"
    by (simp add: minimax.simps [of b 0] bindE_def split: sum.splits)
next
  show "case evaluateBoard b' q of Inl e \<Rightarrow> True | Inr v \<Rightarrow> \<bar>v\<bar> < 10000"
    using evaluateBoard_bound [of b' q] by (auto split: sum.splits)
qed

theorem minimax_no_moves_sentinel_witness:
  "allMoves loneRedBoard (if True then Black else otherPlayer Black) None = Inr []
   \<and> minimax loneRedBoard 3 NegInf PosInf True Black None = Inr (Num (- 10000))
   \<and> allMoves loneRedBoard (if False then Red else otherPlayer Red) None = Inr []
   \<and> minimax loneRedBoard 1 (Num 5) (Num 7) False Red None = Inr (Num 10000)
   \<and> evaluateBoard loneRedBoard Red = Inr 14
   \<and> minimax captureBoard 0 (Num 5) (Num 7) False Black (Some (sq 0 0)) = Inr (Num 2)"
proof -
  have a: "allMoves loneRedBoard (if True then Black else otherPlayer Black) None = Inr []"
    by code_simp
  have b: "allMoves loneRedBoard (if False then Red else otherPlayer Red) None = Inr []"
    by code_simp
  have c: "evaluateBoard loneRedBoard Red = Inr 14"
    by code_simp
  have d: "evaluateBoard captureBoard Black = Inr 2"
    by code_simp
  from minimax_no_moves_sentinel [of 3 loneRedBoard True Black None NegInf PosInf loneRedBoard Red]
    minimax_no_moves_sentinel [of 1 loneRedBoard False Red None "Num 5" "Num 7" loneRedBoard Red]
    minimax_no_moves_sentinel [of 0 captureBoard False Black "Some (sq 0 0)" "Num 5" "Num 7" loneRedBoard Red]
    a b c d
  show ?thesis by simp
qed

theorem minimax_no_moves_sentinel_counterexample:
  "allMoves loneRedBoard Black None = Inr []
   \<and> minimax loneRedBoard 0 NegInf PosInf True Black None = Inr (Num (- 14))"
  by code_simp

text \<open>
  C4. After \<open>simulateMove\<close>: when the move is a jump and the piece on the landing
  square has a capturing move on the new board, the same player moves again and must
  jump from the landing square; otherwise the turn passes to the opponent and no square
  is forced. Every move the generator emits on a board of the game can be applied.
\<close>

theorem simulateMove_chain:
  "(simulateMove b m p = Inr res \<longrightarrow>
      (if isJump m \<and> (case getValidMoves (newBoard res) (to_pos m) True of
                        Inl e \<Rightarrow> False | Inr fs \<Rightarrow> list_ex isJump fs)
       then nextMustJumpFrom res = Some (to_pos m) \<and> nextTurn res = p
       else nextMustJumpFrom res = None \<and> nextTurn res = otherPlayer p))
   \<and> (wfBoard b \<and> getValidMoves b pos mj = Inr ms \<and> m \<in> set ms
        \<longrightarrow> (\<exists>r. simulateMove b m p = Inr r))"
proof (intro conjI impI)
  assume "simulateMove b m p = Inr res"
  then show "if isJump m \<and> (case getValidMoves (newBoard res) (to_pos m) True of
                        Inl e \<Rightarrow> False | Inr fs \<Rightarrow> list_ex isJump fs)
       then nextMustJumpFrom res = Some (to_pos m) \<and> nextTurn res = p
       else nextMustJumpFrom res = None \<and> nextTurn res = otherPlayer p"
  proof (cases rule: simulateMove_cases)
    case (continues fs)
    then show ?thesis by (auto simp: list_ex_iff filter_empty_conv)
  next
    case passes
    then show ?thesis by (auto simp: list_ex_iff filter_empty_conv)
  qed
next
  assume a: "wfBoard b \<and> getValidMoves b pos mj = Inr ms \<and> m \<in> set ms"
  then have "generated b m" using getValidMoves_generated by blast
  with a simulateMove_ok [of b m p] show "\<exists>r. simulateMove b m p = Inr r" by blast
qed

theorem simulateMove_chain_witness:
  "(\<exists>res. simulateMove doubleJumpBoard (jump (sq 5 2) (sq 4 3) (sq 3 4)) Red = Inr res
      \<and> getValidMoves (newBoard res) (sq 3 4) True = Inr [jump (sq 3 4) (sq 2 5) (sq 1 6)]
      \<and> nextMustJumpFrom res = Some (sq 3 4) \<and> nextTurn res = Red)
   \<and> (\<exists>res. simulateMove captureBoard (jump (sq 5 2) (sq 4 3) (sq 3 4)) Red = Inr res
      \<and> getValidMoves (newBoard res) (sq 3 4) True
          = Inr [slide (sq 3 4) (sq 2 3), slide (sq 3 4) (sq 2 5)]
      \<and> nextMustJumpFrom res = None \<and> nextTurn res = Black)
   \<and> wfBoard captureBoard
   \<and> getValidMoves captureBoard (sq 5 2) False
       = Inr [jump (sq 5 2) (sq 4 3) (sq 3 4), slide (sq 5 2) (sq 4 1)]"
proof -
  let ?m = "jump (sq 5 2) (sq 4 3) (sq 3 4)"
  let ?r1 = "\<lparr>newBoard =
               [emptyRow, emptyRow,
                [None, None, None, None, None, blackMan, None, None],
                [None, None, None, None, redMan, None, None, None],
                emptyRow, emptyRow, emptyRow, emptyRow],
             nextTurn = Red, nextMustJumpFrom = Some (sq 3 4)\<rparr>"
  let ?r2 = "\<lparr>newBoard =
               [emptyRow, emptyRow, emptyRow,
                [None, None, None, None, redMan, None, None, None],
                emptyRow, emptyRow, emptyRow, emptyRow],
             nextTurn = Black, nextMustJumpFrom = None\<rparr>"
  have s1: "simulateMove doubleJumpBoard ?m Red = Inr ?r1" by code_simp
  have g1: "getValidMoves (newBoard ?r1) (sq 3 4) True = Inr [jump (sq 3 4) (sq 2 5) (sq 1 6)]"
    by code_simp
  have s2: "simulateMove captureBoard ?m Red = Inr ?r2" by code_simp
  have g2: "getValidMoves (newBoard ?r2) (sq 3 4) True
          = Inr [slide (sq 3 4) (sq 2 3), slide (sq 3 4) (sq 2 5)]"
    by code_simp
  have w: "wfBoard captureBoard" by code_simp
  have g: "getValidMoves captureBoard (sq 5 2) False = Inr [?m, slide (sq 5 2) (sq 4 1)]"
    by code_simp
  from simulateMove_chain [of doubleJumpBoard ?m Red ?r1 "sq 5 2" False "[?m]"]
    simulateMove_chain [of captureBoard ?m Red ?r2 "sq 5 2" False "[?m, slide (sq 5 2) (sq 4 1)]"]
    s1 g1 s2 g2 w g
  show ?thesis by simp
qed

text \<open>
  C5. When the player has a jump somewhere on the board, or a square is forced, every
  move \<open>getAiMove\<close> returns is a jump, on every difficulty tier, whatever the random draw
  of the easy tier and whatever permutation the shuffle produces.
\<close>

theorem getAiMove_only_jumps:
  assumes "getAiMove b p difficulty mjf rnd shuffle = Inr (Some mv)"
    and "mjf \<noteq> None \<or> hasAnyJumps b p = Inr True"
    and "\<And>xs. mset (shuffle xs) = mset xs"
  shows "isJump mv"
proof -
  from assms(1) obtain pm where pm: "allMoves b p mjf = Inr pm"
    and r: "(if pm = [] then Inr None
       else if difficulty = Easy
       then Inr (jsIndex pm \<lfloor>rnd * real (length pm)\<rfloor>)
       else
         let depth = (if difficulty = Medium then 2 else 4);
             bestMove = pm ! 0;
             maxEval = NegInf;
             shuffled = shuffle pm
         in bindE (forOfE (scanStep b p depth) shuffled (bestMove, maxEval))
              (\<lambda>st. Inr (Some (fst st)))) = (Inr (Some mv) :: error + Move option)"
    unfolding getAiMove_def bindE_eq_Inr by blast
  have J: "list_all isJump pm" using allMoves_only_jumps [OF pm assms(2)] .
  have ne: "pm \<noteq> []" using r by (auto split: if_splits)
  have "mv \<in> set pm"
  proof (cases "difficulty = Easy")
    case True
    with r ne show ?thesis by (auto dest: jsIndex_mem)
  next
    case False
    with r ne obtain st where
      "forOfE (scanStep b p (if difficulty = Medium then 2 else 4)) (shuffle pm) (pm ! 0, NegInf)
         = Inr st" and "mv = fst st"
      by (auto simp: Let_def bindE_eq_Inr)
    from scan_result_mem [OF this(1)] this(2) have "mv = pm ! 0 \<or> mv \<in> set (shuffle pm)"
      by simp
    moreover have "set (shuffle pm) = set pm" using assms(3) by (rule mset_eq_setD)
    moreover have "pm ! 0 \<in> set pm" using ne by simp
    ultimately show ?thesis by auto
  qed
  with J show ?thesis by (simp add: list_all_iff)
qed

theorem getAiMove_only_jumps_witness:
  "getAiMove captureBoard Red Easy None (1 / 2) rev = Inr (Some (jump (sq 5 2) (sq 4 3) (sq 3 4)))
   \<and> getAiMove captureBoard Red Medium None 0 rev
       = Inr (Some (jump (sq 5 2) (sq 4 3) (sq 3 4)))
   \<and> hasAnyJumps captureBoard Red = Inr True
   \<and> isJump (jump (sq 5 2) (sq 4 3) (sq 3 4))
   \<and> getAiMove promotionChainBoard Red Hard (Some (sq 2 1)) 0 rev
       = Inr (Some (jump (sq 2 1) (sq 1 2) (sq 0 3)))
   \<and> isJump (jump (sq 2 1) (sq 1 2) (sq 0 3))"
proof -
  let ?m = "jump (sq 5 2) (sq 4 3) (sq 3 4)"
  have e: "getAiMove captureBoard Red Easy None (1 / 2) rev = Inr (Some ?m)" by code_simp
  have m: "getAiMove captureBoard Red Medium None 0 rev = Inr (Some ?m)" by code_simp
  have h: "getAiMove promotionChainBoard Red Hard (Some (sq 2 1)) 0 rev
       = Inr (Some (jump (sq 2 1) (sq 1 2) (sq 0 3)))" by code_simp
  have j: "hasAnyJumps captureBoard Red = Inr True" by code_simp
  have p: "mset (rev xs) = mset xs" for xs :: "Move list" by simp
  from getAiMove_only_jumps [OF e _ p] getAiMove_only_jumps [OF h _ p] e m h j
  show ?thesis by simp
qed

text \<open>
  C6. After a move of a piece \<open>piece\<close>, the piece on the landing square belongs to the
  same player and is a king exactly when \<open>piece\<close> was a king or the landing row is the
  far row of its side (row 0 for red, row 7 for black). The landing square is only empty
  for a move that lands on its own origin or on the square it captures, which the
  generator never emits. The follow-up test of \<open>simulateMove\<close> runs on this new board,
  so a man promoted by a jump continues the chain with the moves of a king.
  \<open>executeMove\<close> commits the same board.
\<close>

theorem simulateMove_promotion:
  assumes "simulateMove b m cp = Inr res" and "getAt b (from_pos m) = Inr (Some piece)"
  shows "getAt (newBoard res) (to_pos m)
         = Inr (if to_pos m = from_pos m \<or> (isJump m \<and> jumpedPiece m = Some (to_pos m))
                then None
                else Some \<lparr>player = player piece,
                            isKing = (isKing piece
                                      \<or> (player piece = Red \<and> row (to_pos m) = 0)
                                      \<or> (player piece = Black \<and> row (to_pos m) = 7))\<rparr>)
         \<and> (\<forall>st. board st = b \<longrightarrow> board (fst (executeMove st m)) = newBoard res)"
proof -
  have "promote piece (to_pos m)
        = \<lparr>player = player piece,
            isKing = (isKing piece \<or> (player piece = Red \<and> row (to_pos m) = 0)
                      \<or> (player piece = Black \<and> row (to_pos m) = 7))\<rparr>"
    by (cases piece) (auto simp: promote_def BOARD_SIZE_def)
  with applyToBoard_getAt [OF simulateMove_board [OF assms(1)] assms(2), of "to_pos m"]
  have "getAt (newBoard res) (to_pos m)
         = Inr (if to_pos m = from_pos m \<or> (isJump m \<and> jumpedPiece m = Some (to_pos m))
                then None
                else Some \<lparr>player = player piece,
                            isKing = (isKing piece
                                      \<or> (player piece = Red \<and> row (to_pos m) = 0)
                                      \<or> (player piece = Black \<and> row (to_pos m) = 7))\<rparr>)"
    by auto
  moreover have "\<forall>st. board st = b \<longrightarrow> board (fst (executeMove st m)) = newBoard res"
    using simulateMove_board [OF assms(1)] by (auto intro: executeMove_board)
  ultimately show ?thesis by simp
qed

theorem simulateMove_promotion_witness:
  "(\<exists>res. simulateMove promotionChainBoard (jump (sq 2 1) (sq 1 2) (sq 0 3)) Red = Inr res
      \<and> getAt promotionChainBoard (sq 2 1) = Inr redMan
      \<and> getAt (newBoard res) (sq 0 3) = Inr redKing
      \<and> nextMustJumpFrom res = Some (sq 0 3)
      \<and> board (fst (executeMove \<lparr>board = promotionChainBoard, turn = Red,
                                     selectedPos = Some (sq 2 1), winner = None,
                                     mustJumpFrom = None\<rparr>
                          (jump (sq 2 1) (sq 1 2) (sq 0 3))))
          = newBoard res)
   \<and> (\<exists>res. simulateMove promotionChainBoard (slide (sq 6 5) (sq 7 4)) Black = Inr res
      \<and> getAt promotionChainBoard (sq 6 5) = Inr blackMan
      \<and> getAt (newBoard res) (sq 7 4) = Inr blackKing)
   \<and> (\<exists>res. simulateMove loneRedBoard (slide (sq 5 2) (sq 4 1)) Red = Inr res
      \<and> getAt loneRedBoard (sq 5 2) = Inr redMan
      \<and> getAt (newBoard res) (sq 4 1) = Inr redMan)"
proof -
  let ?m = "jump (sq 2 1) (sq 1 2) (sq 0 3)"
  let ?st = "\<lparr>board = promotionChainBoard, turn = Red, selectedPos = Some (sq 2 1),
              winner = None, mustJumpFrom = None\<rparr>"
  let ?r1 = "\<lparr>newBoard =
               [[None, None, None, redKing, None, None, None, None],
                [None, None, None, None, blackMan, None, None, None],
                emptyRow, emptyRow, emptyRow, emptyRow,
                [None, None, None, None, None, blackMan, None, None],
                emptyRow],
             nextTurn = Red, nextMustJumpFrom = Some (sq 0 3)\<rparr>"
  let ?r2 = "\<lparr>newBoard =
               [emptyRow,
                [None, None, blackMan, None, blackMan, None, None, None],
                [None, redMan, None, None, None, None, None, None],
                emptyRow, emptyRow, emptyRow, emptyRow,
                [None, None, None, None, blackKing, None, None, None]],
             nextTurn = Red, nextMustJumpFrom = None\<rparr>"
  let ?r3 = "\<lparr>newBoard =
               [emptyRow, emptyRow, emptyRow, emptyRow,
                [None, redMan, None, None, None, None, None, None],
                emptyRow, emptyRow, emptyRow],
             nextTurn = Black, nextMustJumpFrom = None\<rparr>"
  have s1: "simulateMove promotionChainBoard ?m Red = Inr ?r1" by code_simp
  have p1: "getAt promotionChainBoard (from_pos ?m) = Inr (Some \<lparr>player = Red, isKing = False\<rparr>)"
    by code_simp
  have s2: "simulateMove promotionChainBoard (slide (sq 6 5) (sq 7 4)) Black = Inr ?r2"
    by code_simp
  have p2: "getAt promotionChainBoard (from_pos (slide (sq 6 5) (sq 7 4)))
            = Inr (Some \<lparr>player = Black, isKing = False\<rparr>)"
    by code_simp
  have s3: "simulateMove loneRedBoard (slide (sq 5 2) (sq 4 1)) Red = Inr ?r3" by code_simp
  have p3: "getAt loneRedBoard (from_pos (slide (sq 5 2) (sq 4 1)))
            = Inr (Some \<lparr>player = Red, isKing = False\<rparr>)"
    by code_simp
  have e: "board ?st = promotionChainBoard" by simp
  from simulateMove_promotion [OF s1 p1] e
  have x: "board (fst (executeMove ?st ?m)) = newBoard ?r1" by blast
  from simulateMove_promotion [OF s1 p1] simulateMove_promotion [OF s2 p2]
    simulateMove_promotion [OF s3 p3] s1 s2 s3 p1 p2 p3 x
  show ?thesis
    by (simp add: jump_def slide_def sq_def redMan_def redKing_def blackMan_def blackKing_def)
qed

text \<open>
  C7 (as amended). On a board of the game where the player has a move, the medium and
  the hard tier return a candidate move whose score is maximal among the candidates,
  for every permutation the shuffle may produce. The score of a candidate \<open>m\<close> is
  \<open>moveScore\<close>: the search of the position after \<open>m\<close> with the full window, at depth
  1 (medium) or 3 (hard) for the opponent when the turn passes, and at depth 2 or 4 for
  the same player when \<open>m\<close> continues a capture chain.
\<close>

theorem getAiMove_maximal:
  assumes "wfBoard b" and "case mjf of None \<Rightarrow> True | Some q \<Rightarrow> row q < 8"
    and "allMoves b p mjf = Inr pm" and "pm \<noteq> []"
    and "difficulty \<noteq> Easy" and "mset (shuffle pm) = mset pm"
  shows "\<exists>mv s. getAiMove b p difficulty mjf rnd shuffle = Inr (Some mv)
           \<and> mv \<in> set pm
           \<and> moveScore b p (if difficulty = Medium then 2 else 4) mv = Inr (Num s)
           \<and> (\<forall>m\<in>set pm. \<exists>s'. moveScore b p (if difficulty = Medium then 2 else 4) m
                                  = Inr (Num s') \<and> s' \<le> s)"
proof -
  let ?d = "if difficulty = Medium then 2 else 4 :: nat"
  have set_eq: "set (shuffle pm) = set pm" using assms(6) by (rule mset_eq_setD)
  have sc: "\<exists>s. moveScore b p ?d m = Inr (Num s)" if "m \<in> set (shuffle pm)" for m
    using that set_eq allMoves_generated [OF assms(3)] moveScore_ok [OF assms(1)] by blast
  have "scanInv b p ?d [] (pm ! 0, NegInf)" by (simp add: scanInv_def)
  with scan_max [of "shuffle pm" b p ?d "[]" "(pm ! 0, NegInf)"] sc obtain st where
    st: "forOfE (scanStep b p ?d) (shuffle pm) (pm ! 0, NegInf) = Inr st"
    and inv: "scanInv b p ?d (shuffle pm) st"
    by auto
  from assms(4) set_eq have "shuffle pm \<noteq> []" by auto
  with inv set_eq obtain s where "fst st \<in> set pm" "moveScore b p ?d (fst st) = Inr (Num s)"
    "\<forall>m\<in>set pm. \<exists>s'. moveScore b p ?d m = Inr (Num s') \<and> s' \<le> s"
    unfolding scanInv_def by auto
  moreover have "getAiMove b p difficulty mjf rnd shuffle = Inr (Some (fst st))"
    using assms(3,4,5) st by (simp add: getAiMove_def Let_def)
  ultimately show ?thesis by blast
qed

theorem getAiMove_maximal_witness:
  "wfBoard trapBoard
   \<and> allMoves trapBoard Red None = Inr [slide (sq 5 2) (sq 4 1), slide (sq 5 2) (sq 4 3)]
   \<and> getAiMove trapBoard Red Medium None 0 rev = Inr (Some (slide (sq 5 2) (sq 4 1)))
   \<and> moveScore trapBoard Red 2 (slide (sq 5 2) (sq 4 1)) = Inr (Num (- 33))
   \<and> moveScore trapBoard Red 2 (slide (sq 5 2) (sq 4 3)) = Inr (Num (- 35))"
proof -
  let ?pm = "[slide (sq 5 2) (sq 4 1), slide (sq 5 2) (sq 4 3)]"
  have w: "wfBoard trapBoard" by code_simp
  have a: "allMoves trapBoard Red None = Inr ?pm" by code_simp
  have g: "getAiMove trapBoard Red Medium None 0 rev = Inr (Some (slide (sq 5 2) (sq 4 1)))"
    by code_simp
  have s1: "moveScore trapBoard Red 2 (slide (sq 5 2) (sq 4 1)) = Inr (Num (- 33))"
    by code_simp
  have s2: "moveScore trapBoard Red 2 (slide (sq 5 2) (sq 4 3)) = Inr (Num (- 35))"
    by code_simp
  have p: "mset (rev ?pm) = mset ?pm" by simp
  from getAiMove_maximal [where b = trapBoard and mjf = None and p = Red and pm = ?pm
      and difficulty = Medium and shuffle = rev and rnd = 0] w a p g s1 s2
  show ?thesis by simp
qed

theorem getAiMove_maximal_counterexample:
  "allMoves trapBoard Red None = Inr [slide (sq 5 2) (sq 4 1), slide (sq 5 2) (sq 4 3)]
   \<and> getAiMove trapBoard Red Medium None 0 id = Inr (Some (slide (sq 5 2) (sq 4 1)))
   \<and> getAiMove trapBoard Red Medium None 0 rev = Inr (Some (slide (sq 5 2) (sq 4 1)))
   \<and> fullDepthScore trapBoard Red 2 (slide (sq 5 2) (sq 4 1)) = Inr (Num (- 10000))
   \<and> fullDepthScore trapBoard Red 2 (slide (sq 5 2) (sq 4 3)) = Inr (Num (- 34))"
  by code_simp

text \<open>
  C8. The search is total. Its recursion is well founded on the pair (depth, number of
  pieces on the board): a move after which the same side moves again is a jump the
  generator emitted, and it takes one piece off the board, while every other move
  lowers the depth. On a board of the game the search throws nothing and returns a
  finite score.
\<close>

theorem minimax_total:
  "(allMoves b cp mjf = Inr pm \<and> m \<in> set pm \<and> simulateMove b m cp = Inr res
      \<and> nextTurn res = cp
     \<longrightarrow> isJump m \<and> countPieces (newBoard res) + 1 = countPieces b)
   \<and> (wfBoard b \<and> (case mjf of None \<Rightarrow> True | Some q \<Rightarrow> row q < 8)
     \<longrightarrow> (\<exists>v. minimax b depth alpha beta maximizing p mjf = Inr (Num v)))"
proof (intro conjI impI)
  assume a: "allMoves b cp mjf = Inr pm \<and> m \<in> set pm \<and> simulateMove b m cp = Inr res
      \<and> nextTurn res = cp"
  then show "isJump m" using simulateMove_continues_jump by blast
  with a have "genJump b m" using allMoves_jump_gen by blast
  from applyToBoard_genJump_count [OF this \<open>isJump m\<close>] a simulateMove_board
  show "countPieces (newBoard res) + 1 = countPieces b" by blast
next
  assume "wfBoard b \<and> (case mjf of None \<Rightarrow> True | Some q \<Rightarrow> row q < 8)"
  then show "\<exists>v. minimax b depth alpha beta maximizing p mjf = Inr (Num v)"
    using minimax_ok by blast
qed

theorem minimax_total_witness:
  "allMoves doubleJumpBoard Red None = Inr [jump (sq 5 2) (sq 4 3) (sq 3 4)]
   \<and> (\<exists>res. simulateMove doubleJumpBoard (jump (sq 5 2) (sq 4 3) (sq 3 4)) Red = Inr res
        \<and> nextTurn res = Red \<and> nextMustJumpFrom res = Some (sq 3 4)
        \<and> countPieces (newBoard res) + 1 = countPieces doubleJumpBoard)
   \<and> countPieces doubleJumpBoard = 3
   \<and> wfBoard doubleJumpBoard
   \<and> (\<exists>v. minimax doubleJumpBoard 4 NegInf PosInf True Red None = Inr (Num v))"
proof -
  let ?m = "jump (sq 5 2) (sq 4 3) (sq 3 4)"
  let ?b' = "[emptyRow, emptyRow,
      [None, None, None, None, None, blackMan, None, None],
      [None, None, None, None, redMan, None, None, None],
      emptyRow, emptyRow, emptyRow, emptyRow]"
  let ?res = "\<lparr>newBoard = ?b', nextTurn = Red, nextMustJumpFrom = Some (sq 3 4)\<rparr>"
  have a: "allMoves doubleJumpBoard Red None = Inr [?m]"
    by code_simp
  have s: "simulateMove doubleJumpBoard ?m Red = Inr ?res"
    by code_simp
  have c: "countPieces doubleJumpBoard = 3"
    by code_simp
  have w: "wfBoard doubleJumpBoard"
    by code_simp
  from minimax_total [of doubleJumpBoard Red None "[?m]" ?m ?res 4 NegInf PosInf True Red]
    a s c w
  show ?thesis by simp
qed

text \<open>
  C9. The static evaluation is antisymmetric in the perspective player: on every board,
  \<open>evaluateBoard board Red\<close> is the negation of \<open>evaluateBoard board Black\<close> (and one
  call throws exactly when the other does).
\<close>

theorem evaluateBoard_antisymmetric:
  "evaluateBoard b Red =
     (case evaluateBoard b Black of Inl e \<Rightarrow> Inl e | Inr v \<Rightarrow> Inr (- v))"
  unfolding evaluateBoard_def using evaluate_loop_neg [of b squares 0] by simp

text \<open>
  C10. Frame of move application. For a move the generator emitted, the board returned
  by \<open>simulateMove\<close> has the origin square empty, the moved piece (same owner, king
  flag kept or set) on the landing square, the jumped square empty when the move is a
  jump, and every other square as on the input board; it has as many rows as the input
  board, and on a board of the game it is again a board of the game. The input board is
  left intact: whatever store holds it, the statements of \<open>simulateMove\<close> run on that
  store return a board that reads as \<open>newBoard\<close>, while every row array and every
  piece object that existed before is unchanged (the store only grows by the copy), so
  the input still reads as before.
\<close>

theorem simulateMove_frame:
  assumes "getValidMoves b pos mj = Inr ms" and "m \<in> set ms"
    and "simulateMove b m p = Inr res"
  shows "\<exists>piece moved.
           getAt b (from_pos m) = Inr (Some piece)
           \<and> getAt (newBoard res) (from_pos m) = Inr None
           \<and> getAt (newBoard res) (to_pos m) = Inr (Some moved)
           \<and> player moved = player piece \<and> (isKing piece \<longrightarrow> isKing moved)
           \<and> (isJump m \<longrightarrow> (\<exists>j. jumpedPiece m = Some j \<and> getAt (newBoard res) j = Inr None))
           \<and> (\<forall>q. q \<noteq> from_pos m \<and> q \<noteq> to_pos m \<and> \<not> (isJump m \<and> jumpedPiece m = Some q)
                  \<longrightarrow> getAt (newBoard res) q = getAt b q)
           \<and> length (newBoard res) = length b
           \<and> (wfBoard b \<longrightarrow> wfBoard (newBoard res))
           \<and> (\<forall>h input. heapOk h input \<and> absBoard h input = b \<longrightarrow>
                 (\<exists>h' copy. applyToBoardH h input m = (h', Inr copy)
                     \<and> absBoard h' copy = newBoard res
                     \<and> absBoard h' input = b
                     \<and> take (length (rowArr h)) (rowArr h') = rowArr h
                     \<and> take (length (pieceObj h)) (pieceObj h') = pieceObj h))"
proof -
  from getValidMoves_generated [OF assms(1,2)] have gen: "generated b m" by simp
  then obtain piece where fr: "getAt b (from_pos m) = Inr (Some piece)"
    and ne: "to_pos m \<noteq> from_pos m"
    by (auto simp: generated_def occupied_iff)
  have ab: "applyToBoard b m = Inr (newBoard res)"
    using simulateMove_board [OF assms(3)] .
  note at = applyToBoard_getAt [OF ab fr]
  have j: "isJump m \<longrightarrow> (\<exists>j. jumpedPiece m = Some j \<and> j \<noteq> to_pos m \<and> j \<noteq> from_pos m)"
    using gen by (auto simp: generated_def genJump_def split: option.splits)
  have nj: "\<not> (isJump m \<and> jumpedPiece m = Some (to_pos m))"
    using j by auto
  have store: "\<exists>h' copy. applyToBoardH h input m = (h', Inr copy)
                     \<and> absBoard h' copy = newBoard res
                     \<and> absBoard h' input = b
                     \<and> take (length (rowArr h)) (rowArr h') = rowArr h
                     \<and> take (length (pieceObj h)) (pieceObj h') = pieceObj h"
    if h: "heapOk h input \<and> absBoard h input = b" for h input
  proof -
    obtain h' r where run: "applyToBoardH h input m = (h', r)"
      by (cases "applyToBoardH h input m")
    from applyToBoardH_refines [of h input m h' r] h run ab
    obtain copy where "r = Inr copy" "absBoard h' copy = newBoard res" "absBoard h' input = b"
      "take (length (rowArr h)) (rowArr h') = rowArr h"
      "take (length (pieceObj h)) (pieceObj h') = pieceObj h"
      by (cases r) auto
    with run show ?thesis by blast
  qed
  have "getAt (newBoard res) (from_pos m) = Inr None"
    using at [of "from_pos m"] by simp
  moreover have "getAt (newBoard res) (to_pos m) = Inr (Some (promote piece (to_pos m)))"
    using at [of "to_pos m"] ne nj by simp
  moreover have "isJump m \<longrightarrow> (\<exists>j. jumpedPiece m = Some j \<and> getAt (newBoard res) j = Inr None)"
    using j at by auto
  moreover have "\<forall>q. q \<noteq> from_pos m \<and> q \<noteq> to_pos m \<and> \<not> (isJump m \<and> jumpedPiece m = Some q)
                  \<longrightarrow> getAt (newBoard res) q = getAt b q"
    using at by simp
  moreover have "length (newBoard res) = length b"
    using applyToBoard_length [OF ab] .
  moreover have "wfBoard b \<longrightarrow> wfBoard (newBoard res)"
    using applyToBoard_generated [OF gen fr] ab by auto
  ultimately have "getAt b (from_pos m) = Inr (Some piece)
           \<and> getAt (newBoard res) (from_pos m) = Inr None
           \<and> getAt (newBoard res) (to_pos m) = Inr (Some (promote piece (to_pos m)))
           \<and> player (promote piece (to_pos m)) = player piece
           \<and> (isKing piece \<longrightarrow> isKing (promote piece (to_pos m)))
           \<and> (isJump m \<longrightarrow> (\<exists>j. jumpedPiece m = Some j \<and> getAt (newBoard res) j = Inr None))
           \<and> (\<forall>q. q \<noteq> from_pos m \<and> q \<noteq> to_pos m \<and> \<not> (isJump m \<and> jumpedPiece m = Some q)
                  \<longrightarrow> getAt (newBoard res) q = getAt b q)
           \<and> length (newBoard res) = length b
           \<and> (wfBoard b \<longrightarrow> wfBoard (newBoard res))"
    using fr promote_keeps_king [of piece "to_pos m"] by simp
  with store show ?thesis by blast
qed

theorem simulateMove_frame_witness:
  "getValidMoves captureBoard (sq 5 2) False
     = Inr [jump (sq 5 2) (sq 4 3) (sq 3 4), slide (sq 5 2) (sq 4 1)]
   \<and> simulateMove captureBoard (jump (sq 5 2) (sq 4 3) (sq 3 4)) Red
     = Inr \<lparr>newBoard =
               [emptyRow, emptyRow, emptyRow,
                [None, None, None, None, redMan, None, None, None],
                emptyRow, emptyRow, emptyRow, emptyRow],
             nextTurn = Black, nextMustJumpFrom = None\<rparr>
   \<and> getAt captureBoard (sq 5 2) = Inr redMan
   \<and> wfBoard captureBoard
   \<and> heapOk captureHeap captureRef \<and> absBoard captureHeap captureRef = captureBoard
   \<and> (\<exists>h' copy. applyToBoardH captureHeap captureRef (jump (sq 5 2) (sq 4 3) (sq 3 4))
                      = (h', Inr copy)
         \<and> absBoard h' copy
             = [emptyRow, emptyRow, emptyRow,
                [None, None, None, None, redMan, None, None, None],
                emptyRow, emptyRow, emptyRow, emptyRow]
         \<and> absBoard h' captureRef = captureBoard)"
proof -
  let ?m = "jump (sq 5 2) (sq 4 3) (sq 3 4)"
  let ?r = "\<lparr>newBoard =
               [emptyRow, emptyRow, emptyRow,
                [None, None, None, None, redMan, None, None, None],
                emptyRow, emptyRow, emptyRow, emptyRow],
             nextTurn = Black, nextMustJumpFrom = None\<rparr>"
  have g: "getValidMoves captureBoard (sq 5 2) False = Inr [?m, slide (sq 5 2) (sq 4 1)]"
    by code_simp
  have s: "simulateMove captureBoard ?m Red = Inr ?r" by code_simp
  have p: "getAt captureBoard (sq 5 2) = Inr redMan" by code_simp
  have w: "wfBoard captureBoard" by code_simp
  have h: "heapOk captureHeap captureRef \<and> absBoard captureHeap captureRef = captureBoard"
    by code_simp
  from simulateMove_frame [OF g _ s] h
  have "\<exists>h' copy. applyToBoardH captureHeap captureRef ?m = (h', Inr copy)
         \<and> absBoard h' copy = newBoard ?r \<and> absBoard h' captureRef = captureBoard"
    by (simp, blast)
  with g s p w h show ?thesis by simp
qed

end
